theory Spec2Isabelle
  imports
    Complex_Main
    "HOL-Library.AList"
    "HOL-Library.Char_ord"
    "HOL-Library.List_Lexorder"
    "HOL-Library.Product_Lexorder"
    "HOL-Library.Multiset"
begin

section \<open>Spendsense: the purchase-history matcher\<close>

text \<open>
  The development embeds \<^verbatim>\<open>check_purchase_history\<close> of \<^verbatim>\<open>app.py\<close> together with the
  parts of Python's \<^verbatim>\<open>difflib\<close> and \<^verbatim>\<open>heapq\<close> it calls (\<^verbatim>\<open>SequenceMatcher\<close>,
  \<^verbatim>\<open>get_close_matches\<close>, \<^verbatim>\<open>nlargest\<close>), translated from the CPython 3.11 sources.

  Conventions of the model:
  \<^item> a Python \<^verbatim>\<open>str\<close> is a \<open>string\<close>, one \<open>char\<close> per code point below 256;
  \<^item> a Python \<^verbatim>\<open>dict\<close> is an association list in insertion order, read with \<open>map_of\<close>;
  \<^item> a Python \<^verbatim>\<open>float\<close> (similarity ratios, the threshold) is the rational number it
    denotes: the quotient \<^verbatim>\<open>2.0 * matches / length\<close> is exact, not rounded, and the
    values \<^verbatim>\<open>nan\<close> and \<^verbatim>\<open>inf\<close> are not thresholds of the model;
  \<^item> a raised exception is the \<open>Inl\<close> of a sum, a \<^verbatim>\<open>try/except Exception\<close> is a case
    distinction on it.
\<close>

subsection \<open>Values, errors, verdicts\<close>

text \<open>
  A cell of the \<^verbatim>\<open>item_name\<close> column as \<^verbatim>\<open>sqlite3\<close> hands it over: \<^verbatim>\<open>None\<close>, a
  \<^verbatim>\<open>str\<close>, or (SQLite is dynamically typed) a number, which has no \<^verbatim>\<open>lower\<close> method.
\<close>

datatype pyval = PNone | PStr string | PInt int

datatype error = AttributeError | ValueError

text \<open>
  The three messages the function returns: "No past items found", "You already posted
  something similar earlier: '...'" with the text it names, and "No close match".
\<close>

datatype verdict = NoHistory | Match string | NoMatch

subsection \<open>\<^verbatim>\<open>str.lower\<close>\<close>

text \<open>
  Below code point 256 the characters that \<^verbatim>\<open>str.lower\<close> changes are \<^verbatim>\<open>A\<close>-\<^verbatim>\<open>Z\<close> and the
  Latin-1 capitals 192-222 without the multiplication sign 215; each moves up by 32.
\<close>

definition lower_char :: "char \<Rightarrow> char" where
  "lower_char c =
     (let n = (of_char c :: nat)
      in if (65 \<le> n \<and> n \<le> 90) \<or> (192 \<le> n \<and> n \<le> 222 \<and> n \<noteq> 215)
         then char_of (n + 32) else c)"

definition lower :: "string \<Rightarrow> string" where
  "lower s = map lower_char s"

subsection \<open>Dictionaries\<close>

text \<open>\<^verbatim>\<open>d.get(k, default)\<close>; \<^verbatim>\<open>d[k] = v\<close> is \<open>AList.update k v d\<close>, \<^verbatim>\<open>del d[k]\<close> is \<open>AList.delete k d\<close>.\<close>

definition dict_get :: "('k \<times> 'v) list \<Rightarrow> 'k \<Rightarrow> 'v \<Rightarrow> 'v" where
  "dict_get d k dflt = (case map_of d k of None \<Rightarrow> dflt | Some v \<Rightarrow> v)"

subsection \<open>\<^verbatim>\<open>SequenceMatcher.__chain_b\<close>\<close>

text \<open>
  \<^verbatim>\<open>
  for i, elt in enumerate(b):
      indices = b2j.setdefault(elt, [])
      indices.append(i)
  \<close>
\<close>

definition index_elt :: "nat \<times> char \<Rightarrow> (char \<times> nat list) list \<Rightarrow> (char \<times> nat list) list" where
  "index_elt ie b2j = (case ie of (i, elt) \<Rightarrow> AList.update elt (dict_get b2j elt [] @ [i]) b2j)"

text \<open>
  With \<^verbatim>\<open>isjunk=None\<close> the junk set stays empty. With \<^verbatim>\<open>autojunk=True\<close> (the default, which
  both call sites leave alone) and \<^verbatim>\<open>len(b) >= 200\<close>, every element that occurs more than
  \<^verbatim>\<open>len(b) // 100 + 1\<close> times is popular and is deleted from \<^verbatim>\<open>b2j\<close>.
\<close>

definition popular_elts :: "nat \<Rightarrow> (char \<times> nat list) list \<Rightarrow> char list" where
  "popular_elts n b2j =
     (if n \<ge> 200
      then map fst (filter (\<lambda>(elt, idxs). length idxs > n div 100 + 1) b2j)
      else [])"

definition chain_b :: "string \<Rightarrow> (char \<times> nat list) list" where
  "chain_b b =
     (let b2j = fold index_elt (enumerate 0 b) []
      in fold AList.delete (popular_elts (length b) b2j) b2j)"

definition isbjunk :: "char \<Rightarrow> bool" where
  "isbjunk c = False"

subsection \<open>\<^verbatim>\<open>SequenceMatcher.find_longest_match\<close>\<close>

text \<open>
  The inner loop over the positions \<open>j\<close> of \<^verbatim>\<open>a[i]\<close> in \<open>b\<close>:
  \<^verbatim>\<open>
  for j in b2j.get(a[i], nothing):
      if j < blo: continue
      if j >= bhi: break
      k = newj2len[j] = j2lenget(j-1, 0) + 1
      if k > bestsize:
          besti, bestj, bestsize = i-k+1, j-k+1, k
  \<close>
  The key \<^verbatim>\<open>j-1\<close> is \<^verbatim>\<open>-1\<close> for \<open>j = 0\<close>, which is never stored: the lookup gives the
  default. \<^verbatim>\<open>i-k+1\<close> is written \<open>i + 1 - k\<close>, since \<open>k\<close> may be \<open>i + 1\<close>.
\<close>

fun scan_row ::
  "(nat \<times> nat) list \<Rightarrow> nat \<Rightarrow> nat \<Rightarrow> nat \<Rightarrow> nat list
     \<Rightarrow> (nat \<times> nat) list \<times> nat \<times> nat \<times> nat \<Rightarrow> (nat \<times> nat) list \<times> nat \<times> nat \<times> nat" where
  "scan_row j2len i blo bhi [] st = st"
| "scan_row j2len i blo bhi (j # js) (newj2len, besti, bestj, bestsize) =
     (if j < blo then scan_row j2len i blo bhi js (newj2len, besti, bestj, bestsize)
      else if j \<ge> bhi then (newj2len, besti, bestj, bestsize)
      else
        let k = (if j = 0 then 0 else dict_get j2len (j - 1) 0) + 1;
            newj2len' = AList.update j k newj2len
        in if k > bestsize
           then scan_row j2len i blo bhi js (newj2len', i + 1 - k, j + 1 - k, k)
           else scan_row j2len i blo bhi js (newj2len', besti, bestj, bestsize))"

text \<open>One pass of \<^verbatim>\<open>for i in range(alo, ahi)\<close>: a fresh \<^verbatim>\<open>newj2len\<close> replaces \<^verbatim>\<open>j2len\<close>.\<close>

definition scan_rows_step ::
  "string \<Rightarrow> (char \<times> nat list) list \<Rightarrow> nat \<Rightarrow> nat \<Rightarrow> nat
     \<Rightarrow> (nat \<times> nat) list \<times> nat \<times> nat \<times> nat \<Rightarrow> (nat \<times> nat) list \<times> nat \<times> nat \<times> nat" where
  "scan_rows_step a b2j blo bhi i st =
     (case st of (j2len, besti, bestj, bestsize) \<Rightarrow>
        scan_row j2len i blo bhi (dict_get b2j (a ! i) []) ([], besti, bestj, bestsize))"

definition scan_rows ::
  "string \<Rightarrow> (char \<times> nat list) list \<Rightarrow> nat \<Rightarrow> nat \<Rightarrow> nat \<Rightarrow> nat
     \<Rightarrow> (nat \<times> nat) list \<times> nat \<times> nat \<times> nat" where
  "scan_rows a b2j alo ahi blo bhi =
     fold (scan_rows_step a b2j blo bhi) [alo..<ahi] ([], alo, blo, 0)"

text \<open>
  The four \<^verbatim>\<open>while\<close> loops that extend the block: first by elements that are not junk,
  then by junk elements, each time to the left and then to the right. The flag \<open>junk\<close>
  says which of the two tests \<^verbatim>\<open>not isbjunk(...)\<close> and \<^verbatim>\<open>isbjunk(...)\<close> the loop makes.
\<close>

function extend_left ::
  "bool \<Rightarrow> string \<Rightarrow> string \<Rightarrow> nat \<Rightarrow> nat \<Rightarrow> nat \<times> nat \<times> nat \<Rightarrow> nat \<times> nat \<times> nat" where
  "extend_left junk a b alo blo (besti, bestj, bestsize) =
     (if besti > alo \<and> bestj > blo \<and> isbjunk (b ! (bestj - 1)) = junk
         \<and> a ! (besti - 1) = b ! (bestj - 1)
      then extend_left junk a b alo blo (besti - 1, bestj - 1, bestsize + 1)
      else (besti, bestj, bestsize))"
  by pat_completeness auto
termination
  by (relation "measure (\<lambda>(junk, a, b, alo, blo, besti, bestj, bestsize). besti)") auto

function extend_right ::
  "bool \<Rightarrow> string \<Rightarrow> string \<Rightarrow> nat \<Rightarrow> nat \<Rightarrow> nat \<times> nat \<times> nat \<Rightarrow> nat \<times> nat \<times> nat" where
  "extend_right junk a b ahi bhi (besti, bestj, bestsize) =
     (if besti + bestsize < ahi \<and> bestj + bestsize < bhi \<and> isbjunk (b ! (bestj + bestsize)) = junk
         \<and> a ! (besti + bestsize) = b ! (bestj + bestsize)
      then extend_right junk a b ahi bhi (besti, bestj, bestsize + 1)
      else (besti, bestj, bestsize))"
  by pat_completeness auto
termination
  by (relation "measure (\<lambda>(junk, a, b, ahi, bhi, besti, bestj, bestsize). ahi - (besti + bestsize))") auto

definition find_longest_match ::
  "string \<Rightarrow> string \<Rightarrow> (char \<times> nat list) list \<Rightarrow> nat \<Rightarrow> nat \<Rightarrow> nat \<Rightarrow> nat \<Rightarrow> nat \<times> nat \<times> nat" where
  "find_longest_match a b b2j alo ahi blo bhi =
     (case scan_rows a b2j alo ahi blo bhi of (j2len, best) \<Rightarrow>
        extend_right True a b ahi bhi
          (extend_left True a b alo blo
            (extend_right False a b ahi bhi
              (extend_left False a b alo blo best))))"

subsection \<open>What \<^verbatim>\<open>find_longest_match\<close> returns\<close>

text \<open>
  The recursion equations of the two extension loops are unfolded by hand only. The
  invariants: every list of \<open>b2j\<close> holds positions of its key in \<open>b\<close>; every entry
  \<open>j \<mapsto> k\<close> of \<open>j2len\<close> after the rows below \<open>i\<close> is a common block of length \<open>k\<close>
  that ends at \<open>(i - 1, j)\<close> inside the window; the best block lies inside the window and
  its two sides are equal.
\<close>

definition b2j_sound :: "string \<Rightarrow> (char \<times> nat list) list \<Rightarrow> bool" where
  "b2j_sound b b2j \<longleftrightarrow> (\<forall>c js j. map_of b2j c = Some js \<longrightarrow> j \<in> set js \<longrightarrow> j < length b \<and> b ! j = c)"

definition block_ok :: "string \<Rightarrow> string \<Rightarrow> nat \<Rightarrow> nat \<Rightarrow> nat \<Rightarrow> nat \<Rightarrow> nat \<times> nat \<times> nat \<Rightarrow> bool" where
  "block_ok a b alo ahi blo bhi m =
     (case m of (i, j, k) \<Rightarrow>
        ((k = 0 \<and> i = alo \<and> j = blo) \<or> (alo \<le> i \<and> i + k \<le> ahi \<and> blo \<le> j \<and> j + k \<le> bhi))
        \<and> (\<forall>x<k. a ! (i + x) = b ! (j + x)))"

definition j2len_ok :: "string \<Rightarrow> string \<Rightarrow> nat \<Rightarrow> nat \<Rightarrow> nat \<Rightarrow> nat \<Rightarrow> (nat \<times> nat) list \<Rightarrow> bool" where
  "j2len_ok a b alo blo bhi i j2len \<longleftrightarrow>
     (\<forall>j k. map_of j2len j = Some k \<longrightarrow>
        0 < k \<and> alo + k \<le> i \<and> blo + k \<le> j + 1 \<and> j < bhi \<and> (\<forall>x<k. a ! (i - 1 - x) = b ! (j - x)))"

lemma j2len_ok_Nil: "j2len_ok a b alo blo bhi i []"
  by (simp add: j2len_ok_def)

lemma j2len_ok_update:
  assumes prev: "j2len_ok a b alo blo bhi i j2len"
    and new: "j2len_ok a b alo blo bhi (Suc i) newj2len"
    and j: "blo \<le> j" "j < bhi" and i: "alo \<le> i" and eq: "a ! i = b ! j"
  shows "j2len_ok a b alo blo bhi (Suc i)
           (AList.update j ((if j = 0 then 0 else dict_get j2len (j - 1) 0) + 1) newj2len)"
proof -
  let ?k = "(if j = 0 then 0 else dict_get j2len (j - 1) 0) + 1"
  have k: "0 < ?k \<and> alo + ?k \<le> Suc i \<and> blo + ?k \<le> j + 1 \<and> (\<forall>x<?k. a ! (Suc i - 1 - x) = b ! (j - x))"
  proof (cases "j = 0 \<or> map_of j2len (j - 1) = None")
    case True
    then have "?k = 1" by (auto simp: dict_get_def)
    then show ?thesis using j i eq by simp
  next
    case False
    then obtain k' where k': "map_of j2len (j - 1) = Some k'" and j0: "j \<noteq> 0" by auto
    then have kk: "?k = k' + 1" by (simp add: dict_get_def)
    from prev k' have p: "0 < k'" "alo + k' \<le> i" "blo + k' \<le> j - 1 + 1" 
      "\<forall>x<k'. a ! (i - 1 - x) = b ! (j - 1 - x)"
      unfolding j2len_ok_def by blast+
    have "a ! (Suc i - 1 - x) = b ! (j - x)" if "x < k' + 1" for x
    proof (cases x)
      case 0
      then show ?thesis using eq by simp
    next
      case (Suc y)
      then have "y < k'" using that by simp
      with p(4) have "a ! (i - 1 - y) = b ! (j - 1 - y)" by blast
      then show ?thesis using Suc by simp
    qed
    then show ?thesis using p j0 unfolding kk by auto
  qed
  show ?thesis
    unfolding j2len_ok_def
  proof (intro allI impI)
    fix j' k'
    assume "map_of (AList.update j ?k newj2len) j' = Some k'"
    then have "(j' = j \<and> k' = ?k) \<or> map_of newj2len j' = Some k'"
      by (auto simp: update_conv' split: if_splits)
    then show "0 < k' \<and> alo + k' \<le> Suc i \<and> blo + k' \<le> j' + 1 \<and> j' < bhi \<and> (\<forall>x<k'. a ! (Suc i - 1 - x) = b ! (j' - x))"
    proof
      assume "j' = j \<and> k' = ?k"
      then show ?thesis using k j by simp
    next
      assume "map_of newj2len j' = Some k'"
      with new show ?thesis unfolding j2len_ok_def by blast
    qed
  qed
qed


lemma block_ok_new:
  assumes prev: "j2len_ok a b alo blo bhi i j2len"
    and j: "blo \<le> j" "j < bhi" and i: "alo \<le> i" "i < ahi" and eq: "a ! i = b ! j"
    and k: "k = (if j = 0 then 0 else dict_get j2len (j - 1) 0) + 1"
  shows "block_ok a b alo ahi blo bhi (i + 1 - k, j + 1 - k, k)"
proof -
  have ok: "j2len_ok a b alo blo bhi (Suc i) (AList.update j k [])"
    unfolding k by (rule j2len_ok_update [OF prev j2len_ok_Nil j i(1) eq])
  have m: "map_of (AList.update j k []) j = Some k" by simp
  have pp: "0 < k \<and> alo + k \<le> Suc i \<and> blo + k \<le> j + 1 \<and> j < bhi
      \<and> (\<forall>x<k. a ! (Suc i - 1 - x) = b ! (j - x))"
    using ok [unfolded j2len_ok_def, rule_format, OF m] by simp
  then have p: "0 < k" "alo + k \<le> Suc i" "blo + k \<le> j + 1"
    and c: "\<And>x. x < k \<Longrightarrow> a ! (Suc i - 1 - x) = b ! (j - x)"
    by simp_all
  have "a ! (i + 1 - k + x) = b ! (j + 1 - k + x)" if "x < k" for x
  proof -
    have "k - 1 - x < k" using that by simp
    then have h: "a ! (Suc i - 1 - (k - 1 - x)) = b ! (j - (k - 1 - x))" by (rule c)
    have idx1: "Suc i - 1 - (k - 1 - x) = i + 1 - k + x" using that p by arith
    have idx2: "j - (k - 1 - x) = j + 1 - k + x" using that p by arith
    show ?thesis using h unfolding idx1 idx2 .
  qed
  then have "\<forall>x<k. a ! (i + 1 - k + x) = b ! (j + 1 - k + x)" by blast
  moreover have "alo \<le> i + 1 - k" "i + 1 - k + k \<le> ahi" "blo \<le> j + 1 - k" "j + 1 - k + k \<le> bhi"
    using p j i by arith+
  ultimately show ?thesis
    unfolding block_ok_def by simp
qed

lemma scan_row_ok:
  assumes "j2len_ok a b alo blo bhi i j2len"
    and "j2len_ok a b alo blo bhi (Suc i) newj2len"
    and "block_ok a b alo ahi blo bhi best"
    and "alo \<le> i" "i < ahi"
    and "\<forall>j\<in>set js. b ! j = a ! i"
    and "scan_row j2len i blo bhi js (newj2len, best) = (newj2len', best')"
  shows "j2len_ok a b alo blo bhi (Suc i) newj2len' \<and> block_ok a b alo ahi blo bhi best'"
  using assms
proof (induction js arbitrary: newj2len best)
  case Nil
  then show ?case by simp
next
  case (Cons j js)
  obtain besti bestj bestsize where best: "best = (besti, bestj, bestsize)"
    by (cases best) auto
  let ?k = "(if j = 0 then 0 else dict_get j2len (j - 1) 0) + 1"
  show ?case
  proof (cases "j < blo")
    case True
    with Cons.prems(7) have "scan_row j2len i blo bhi js (newj2len, best) = (newj2len', best')"
      by (simp add: best)
    with Cons.IH [OF Cons.prems(1,2,3,4,5)] Cons.prems(6) show ?thesis by simp
  next
    case lo: False
    show ?thesis
    proof (cases "j \<ge> bhi")
      case True
      with lo Cons.prems(7) have "newj2len' = newj2len" "best' = best"
        by (simp_all add: best)
      with Cons.prems show ?thesis by simp
    next
      case hi: False
      have eq: "a ! i = b ! j" using Cons.prems(6) by simp
      have j: "blo \<le> j" "j < bhi" using lo hi by simp_all
      have new: "j2len_ok a b alo blo bhi (Suc i) (AList.update j ?k newj2len)"
        by (rule j2len_ok_update [OF Cons.prems(1,2) j Cons.prems(4) eq])
      have blk: "block_ok a b alo ahi blo bhi (i + 1 - ?k, j + 1 - ?k, ?k)"
        by (rule block_ok_new [OF Cons.prems(1) j Cons.prems(4,5) eq refl])
      show ?thesis
      proof (cases "?k > bestsize")
        case True
        with lo hi Cons.prems(7)
        have "scan_row j2len i blo bhi js (AList.update j ?k newj2len, (i + 1 - ?k, j + 1 - ?k, ?k))
                = (newj2len', best')"
          by (simp add: best Let_def)
        with Cons.IH [OF Cons.prems(1) new blk Cons.prems(4,5)] Cons.prems(6)
        show ?thesis by simp
      next
        case False
        with lo hi Cons.prems(7)
        have "scan_row j2len i blo bhi js (AList.update j ?k newj2len, best) = (newj2len', best')"
          by (simp add: best Let_def)
        with Cons.IH [OF Cons.prems(1) new Cons.prems(3,4,5)] Cons.prems(6)
        show ?thesis by simp
      qed
    qed
  qed
qed

lemma block_ok_mono: "block_ok a b alo n blo bhi m \<Longrightarrow> n \<le> n' \<Longrightarrow> block_ok a b alo n' blo bhi m"
  by (auto simp: block_ok_def)

lemma dict_get_sound:
  assumes "b2j_sound b b2j" and "j \<in> set (dict_get b2j c [])"
  shows "j < length b \<and> b ! j = c"
proof (cases "map_of b2j c")
  case None
  with assms(2) show ?thesis by (simp add: dict_get_def)
next
  case (Some js)
  with assms(2) have "j \<in> set js" by (simp add: dict_get_def)
  with assms(1) Some show ?thesis unfolding b2j_sound_def by blast
qed

lemma scan_rows_step_ok:
  assumes snd: "b2j_sound b b2j"
    and inv: "j2len_ok a b alo blo bhi i j2len" "block_ok a b alo i blo bhi best"
    and i: "alo \<le> i"
    and res: "scan_rows_step a b2j blo bhi i (j2len, best) = (newj2len', best')"
  shows "j2len_ok a b alo blo bhi (Suc i) newj2len' \<and> block_ok a b alo (Suc i) blo bhi best'"
proof -
  obtain besti bestj bestsize where best: "best = (besti, bestj, bestsize)"
    by (cases best) auto
  have r: "scan_row j2len i blo bhi (dict_get b2j (a ! i) []) ([], best) = (newj2len', best')"
    using res by (simp add: scan_rows_step_def best)
  have e: "\<forall>j\<in>set (dict_get b2j (a ! i) []). b ! j = a ! i"
    using dict_get_sound [OF snd] by blast
  show ?thesis
    by (rule scan_row_ok [OF inv(1) j2len_ok_Nil block_ok_mono [OF inv(2)] i _ e r]) simp_all
qed

lemma scan_rows_upto_ok:
  assumes snd: "b2j_sound b b2j" and le: "alo \<le> n"
  shows "j2len_ok a b alo blo bhi n (fst (fold (scan_rows_step a b2j blo bhi) [alo..<n] ([], alo, blo, 0)))
       \<and> block_ok a b alo n blo bhi (snd (fold (scan_rows_step a b2j blo bhi) [alo..<n] ([], alo, blo, 0)))"
  using le
proof (induction n rule: dec_induct)
  case base
  show ?case by (simp add: j2len_ok_Nil block_ok_def)
next
  case (step n)
  let ?st = "fold (scan_rows_step a b2j blo bhi) [alo..<n] ([], alo, blo, 0)"
  let ?st' = "scan_rows_step a b2j blo bhi n (fst ?st, snd ?st)"
  have f: "fold (scan_rows_step a b2j blo bhi) [alo..<Suc n] ([], alo, blo, 0) = ?st'"
    using step.hyps by simp
  have "scan_rows_step a b2j blo bhi n (fst ?st, snd ?st) = (fst ?st', snd ?st')" by simp
  from scan_rows_step_ok [OF snd _ _ step.hyps(1) this] step.IH
  show ?case unfolding f by blast
qed

lemma scan_rows_ok:
  assumes "b2j_sound b b2j"
  shows "block_ok a b alo ahi blo bhi (snd (scan_rows a b2j alo ahi blo bhi))"
proof (cases "alo \<le> ahi")
  case True
  from scan_rows_upto_ok [OF assms True] show ?thesis by (simp add: scan_rows_def)
next
  case False
  then show ?thesis by (simp add: scan_rows_def block_ok_def)
qed

declare extend_left.simps [simp del] extend_right.simps [simp del]

lemma extend_left_ok:
  "block_ok a b alo ahi blo bhi m \<Longrightarrow> block_ok a b alo ahi blo bhi (extend_left junk a b alo blo m)"
proof (induction junk a b alo blo m rule: extend_left.induct)
  case (1 junk a b alo blo besti bestj bestsize)
  show ?case
  proof (cases "besti > alo \<and> bestj > blo \<and> isbjunk (b ! (bestj - 1)) = junk
         \<and> a ! (besti - 1) = b ! (bestj - 1)")
    case True
    have "a ! (besti - 1 + x) = b ! (bestj - 1 + x)" if "x < bestsize + 1" for x
    proof (cases x)
      case 0
      then show ?thesis using True by simp
    next
      case (Suc y)
      then have "y < bestsize" using that by simp
      with "1.prems" have "a ! (besti + y) = b ! (bestj + y)" by (simp add: block_ok_def)
      then show ?thesis using Suc True by simp
    qed
    then have c: "\<forall>x<bestsize + 1. a ! (besti - 1 + x) = b ! (bestj - 1 + x)" by blast
    have "bestsize = 0 \<and> besti = alo \<and> bestj = blo
       \<or> alo \<le> besti \<and> besti + bestsize \<le> ahi \<and> blo \<le> bestj \<and> bestj + bestsize \<le> bhi"
      using "1.prems" by (simp add: block_ok_def)
    with True have "alo \<le> besti - 1 \<and> besti - 1 + (bestsize + 1) \<le> ahi
        \<and> blo \<le> bestj - 1 \<and> bestj - 1 + (bestsize + 1) \<le> bhi"
      by arith
    with c have "block_ok a b alo ahi blo bhi (besti - 1, bestj - 1, bestsize + 1)"
      unfolding block_ok_def by simp
    from "1.IH" [OF True this]
    show ?thesis using True by (subst extend_left.simps) simp
  next
    case False
    then have "extend_left junk a b alo blo (besti, bestj, bestsize) = (besti, bestj, bestsize)"
      by (subst extend_left.simps) auto
    then show ?thesis using "1.prems" by simp
  qed
qed

lemma extend_right_ok:
  "block_ok a b alo ahi blo bhi m \<Longrightarrow> block_ok a b alo ahi blo bhi (extend_right junk a b ahi bhi m)"
proof (induction junk a b ahi bhi m rule: extend_right.induct)
  case (1 junk a b ahi bhi besti bestj bestsize)
  show ?case
  proof (cases "besti + bestsize < ahi \<and> bestj + bestsize < bhi \<and> isbjunk (b ! (bestj + bestsize)) = junk
         \<and> a ! (besti + bestsize) = b ! (bestj + bestsize)")
    case True
    have "a ! (besti + x) = b ! (bestj + x)" if "x < bestsize + 1" for x
    proof (cases "x = bestsize")
      case e: True
      then show ?thesis using True by simp
    next
      case False
      then have "x < bestsize" using that by simp
      with "1.prems" show ?thesis by (simp add: block_ok_def)
    qed
    then have c: "\<forall>x<bestsize + 1. a ! (besti + x) = b ! (bestj + x)" by blast
    have "bestsize = 0 \<and> besti = alo \<and> bestj = blo
       \<or> alo \<le> besti \<and> besti + bestsize \<le> ahi \<and> blo \<le> bestj \<and> bestj + bestsize \<le> bhi"
      using "1.prems" by (simp add: block_ok_def)
    with True have "alo \<le> besti \<and> besti + (bestsize + 1) \<le> ahi
        \<and> blo \<le> bestj \<and> bestj + (bestsize + 1) \<le> bhi"
      by arith
    with c have "block_ok a b alo ahi blo bhi (besti, bestj, bestsize + 1)"
      unfolding block_ok_def by simp
    from "1.IH" [OF True this]
    show ?thesis using True by (subst extend_right.simps) simp
  next
    case False
    then have "extend_right junk a b ahi bhi (besti, bestj, bestsize) = (besti, bestj, bestsize)"
      by (subst extend_right.simps) auto
    then show ?thesis using "1.prems" by simp
  qed
qed

lemma find_longest_match_ok:
  assumes "b2j_sound b b2j"
  shows "block_ok a b alo ahi blo bhi (find_longest_match a b b2j alo ahi blo bhi)"
proof -
  obtain j2len best where s: "scan_rows a b2j alo ahi blo bhi = (j2len, best)"
    by (cases "scan_rows a b2j alo ahi blo bhi") auto
  from scan_rows_ok [OF assms, of a alo ahi blo bhi] s
  have "block_ok a b alo ahi blo bhi best" by simp
  then show ?thesis
    by (simp add: find_longest_match_def s extend_left_ok extend_right_ok)
qed

subsection \<open>What \<^verbatim>\<open>__chain_b\<close> builds\<close>

text \<open>
  \<^verbatim>\<open>b2j.get(c, [])\<close> is the ascending list of the positions of \<open>c\<close> in \<open>b\<close>, or empty when
  \<open>c\<close> is popular.
\<close>

definition positions :: "string \<Rightarrow> char \<Rightarrow> nat list" where
  "positions b c = filter (\<lambda>j. b ! j = c) [0..<length b]"

definition popular :: "string \<Rightarrow> char \<Rightarrow> bool" where
  "popular b c \<longleftrightarrow> length b \<ge> 200 \<and> length (positions b c) > length b div 100 + 1"

lemma index_elt_get:
  "map_of (index_elt (i, elt) d) c =
     (if c = elt then Some (dict_get d elt [] @ [i]) else map_of d c)"
  by (simp add: index_elt_def update_conv')

lemma index_elt_distinct: "distinct (map fst d) \<Longrightarrow> distinct (map fst (index_elt ie d))"
  by (cases ie) (simp add: index_elt_def distinct_update)

lemma fold_index_elt_distinct:
  "distinct (map fst d) \<Longrightarrow> distinct (map fst (fold index_elt ies d))"
  by (induction ies arbitrary: d) (simp_all add: index_elt_distinct)

lemma fold_index_elt_get:
  "dict_get (fold index_elt (enumerate n xs) d) c [] =
     dict_get d c [] @ filter (\<lambda>j. xs ! (j - n) = c) [n..<n + length xs]"
proof (induction xs arbitrary: n d)
  case Nil
  then show ?case by simp
next
  case (Cons x xs)
  have split: "[n..<n + length (x # xs)] = n # [Suc n..<Suc n + length xs]"
    by (simp add: upt_rec)
  have shift: "filter (\<lambda>j. (x # xs) ! (j - n) = c) [Suc n..<Suc n + length xs]
             = filter (\<lambda>j. xs ! (j - Suc n) = c) [Suc n..<Suc n + length xs]"
  proof (rule filter_cong [OF refl])
    fix j assume "j \<in> set [Suc n..<Suc n + length xs]"
    then have "j - n = Suc (j - Suc n)" by auto
    then show "((x # xs) ! (j - n) = c) = (xs ! (j - Suc n) = c)" by simp
  qed
  have g: "dict_get (index_elt (n, x) d) c [] = dict_get d c [] @ (if x = c then [n] else [])"
    by (auto simp: dict_get_def index_elt_get split: option.splits)
  have "dict_get (fold index_elt (enumerate n (x # xs)) d) c []
      = dict_get (index_elt (n, x) d) c [] @ filter (\<lambda>j. xs ! (j - Suc n) = c) [Suc n..<Suc n + length xs]"
    by (simp add: Cons.IH)
  also have "\<dots> = dict_get d c [] @ (if x = c then [n] else [])
       @ filter (\<lambda>j. (x # xs) ! (j - n) = c) [Suc n..<Suc n + length xs]"
    unfolding g shift by simp
  also have "\<dots> = dict_get d c [] @ filter (\<lambda>j. (x # xs) ! (j - n) = c) [n..<n + length (x # xs)]"
    unfolding split by simp
  finally show ?case .
qed

lemma fold_delete_get:
  "map_of (fold AList.delete ks d) c = (if c \<in> set ks then None else map_of d c)"
  by (induction ks arbitrary: d) (auto simp: delete_conv')

lemma popular_elts_iff:
  assumes "distinct (map fst d)"
  shows "c \<in> set (popular_elts n d) \<longleftrightarrow>
         n \<ge> 200 \<and> (\<exists>idxs. map_of d c = Some idxs \<and> length idxs > n div 100 + 1)"
  using assms by (auto simp: popular_elts_def image_iff)

lemma index_get_positions:
  "dict_get (fold index_elt (enumerate 0 b) []) c [] = positions b c"
  using fold_index_elt_get [of 0 b "[]" c] by (simp add: positions_def dict_get_def)

lemma chain_b_get:
  "dict_get (chain_b b) c [] = (if popular b c then [] else positions b c)"
proof -
  let ?d = "fold index_elt (enumerate 0 b) []"
  have dist: "distinct (map fst ?d)" by (rule fold_index_elt_distinct) simp
  have g: "dict_get ?d c [] = positions b c" by (rule index_get_positions)
  show ?thesis
  proof (cases "c \<in> set (popular_elts (length b) ?d)")
    case True
    then have "popular b c"
      using g unfolding popular_elts_iff [OF dist] popular_def by (auto simp: dict_get_def)
    moreover have "dict_get (chain_b b) c [] = []"
      using True by (simp add: chain_b_def Let_def dict_get_def fold_delete_get)
    ultimately show ?thesis by simp
  next
    case False
    have eq: "dict_get (chain_b b) c [] = positions b c"
      using False g by (simp add: chain_b_def Let_def dict_get_def fold_delete_get)
    show ?thesis
    proof (cases "popular b c")
      case True
      then have len: "length b \<ge> 200" "length (positions b c) > length b div 100 + 1"
        by (simp_all add: popular_def)
      then have "positions b c \<noteq> []" by auto
      with g obtain idxs where "map_of ?d c = Some idxs" "idxs = positions b c"
        by (auto simp: dict_get_def split: option.splits)
      with len False have False unfolding popular_elts_iff [OF dist] by simp
      then show ?thesis ..
    next
      case False
      with eq show ?thesis by simp
    qed
  qed
qed

lemma positions_sound: "j \<in> set (positions b c) \<Longrightarrow> j < length b \<and> b ! j = c"
  by (auto simp: positions_def)

lemma chain_b_sound: "b2j_sound b (chain_b b)"
  unfolding b2j_sound_def
proof (intro allI impI)
  fix c js j
  assume m: "map_of (chain_b b) c = Some js" and j: "j \<in> set js"
  from m have "dict_get (chain_b b) c [] = js" by (simp add: dict_get_def)
  with j have "j \<in> set (positions b c)" by (auto simp: chain_b_get split: if_splits)
  then show "j < length b \<and> b ! j = c" by (rule positions_sound)
qed

subsection \<open>\<^verbatim>\<open>SequenceMatcher.get_matching_blocks\<close> and the ratios\<close>

lemma find_longest_match_bounds:
  assumes "find_longest_match a b (chain_b b) alo ahi blo bhi = (i, j, k)" and "k \<noteq> 0"
  shows "alo \<le> i \<and> i + k \<le> ahi \<and> blo \<le> j \<and> j + k \<le> bhi"
  using find_longest_match_ok [OF chain_b_sound, of a b alo ahi blo bhi] assms
  by (simp add: block_ok_def)

text \<open>
  The work list: \<^verbatim>\<open>queue.pop()\<close> takes the last element, so the head of the list is the
  end of the Python list, and of the two windows pushed the right one is on top.
  \<^verbatim>\<open>
  while queue:
      alo, ahi, blo, bhi = queue.pop()
      i, j, k = x = self.find_longest_match(alo, ahi, blo, bhi)
      if k:
          matching_blocks.append(x)
          if alo < i and blo < j:
              queue.append((alo, i, blo, j))
          if i+k < ahi and j+k < bhi:
              queue.append((i+k, ahi, j+k, bhi))
  \<close>
  \<^verbatim>\<open>self.b2j\<close> is what \<^verbatim>\<open>__chain_b\<close> built when \<open>b\<close> was set.
\<close>

function matching_blocks_loop ::
  "string \<Rightarrow> string \<Rightarrow> (nat \<times> nat \<times> nat \<times> nat) list \<Rightarrow> (nat \<times> nat \<times> nat) list
     \<Rightarrow> (nat \<times> nat \<times> nat) list" where
  "matching_blocks_loop a b [] matching_blocks = matching_blocks"
| "matching_blocks_loop a b ((alo, ahi, blo, bhi) # queue) matching_blocks =
     (case find_longest_match a b (chain_b b) alo ahi blo bhi of (i, j, k) \<Rightarrow>
        if k \<noteq> 0
        then matching_blocks_loop a b
               ((if i + k < ahi \<and> j + k < bhi then [(i + k, ahi, j + k, bhi)] else [])
                @ (if alo < i \<and> blo < j then [(alo, i, blo, j)] else []) @ queue)
               (matching_blocks @ [(i, j, k)])
        else matching_blocks_loop a b queue matching_blocks)"
  by pat_completeness auto
termination
proof (relation "measure (\<lambda>(a, b, queue, blocks).
          sum_list (map (\<lambda>(alo, ahi, blo, bhi). 2 * (ahi - alo) + 1) queue))", goal_cases)
  case 1
  show ?case by simp
next
  case (2 a b alo ahi blo bhi queue matching_blocks i y j k)
  then have "find_longest_match a b (chain_b b) alo ahi blo bhi = (i, j, k)" by simp
  from find_longest_match_bounds [OF this \<open>k \<noteq> 0\<close>]
  have "alo \<le> i" "i + k \<le> ahi" by simp_all
  then show ?case using \<open>k \<noteq> 0\<close> by auto
next
  case 3
  show ?case by simp
qed

text \<open>
  The blocks are then sorted, adjacent blocks are merged, and the sentinel
  \<^verbatim>\<open>(la, lb, 0)\<close> is appended:
  \<^verbatim>\<open>
  i1 = j1 = k1 = 0
  non_adjacent = []
  for i2, j2, k2 in matching_blocks:
      if i1 + k1 == i2 and j1 + k1 == j2:
          k1 += k2
      else:
          if k1:
              non_adjacent.append((i1, j1, k1))
          i1, j1, k1 = i2, j2, k2
  if k1:
      non_adjacent.append((i1, j1, k1))
  non_adjacent.append( (la, lb, 0) )
  \<close>
\<close>

definition merge_adjacent ::
  "nat \<times> nat \<times> nat \<Rightarrow> (nat \<times> nat \<times> nat) \<times> (nat \<times> nat \<times> nat) list
     \<Rightarrow> (nat \<times> nat \<times> nat) \<times> (nat \<times> nat \<times> nat) list" where
  "merge_adjacent x st =
     (case (x, st) of ((i2, j2, k2), ((i1, j1, k1), non_adjacent)) \<Rightarrow>
        if i1 + k1 = i2 \<and> j1 + k1 = j2 then ((i1, j1, k1 + k2), non_adjacent)
        else ((i2, j2, k2), (if k1 \<noteq> 0 then non_adjacent @ [(i1, j1, k1)] else non_adjacent)))"

definition get_matching_blocks :: "string \<Rightarrow> string \<Rightarrow> (nat \<times> nat \<times> nat) list" where
  "get_matching_blocks a b =
     (let la = length a; lb = length b;
          matching_blocks = sort (matching_blocks_loop a b [(0, la, 0, lb)] [])
      in case fold merge_adjacent matching_blocks ((0, 0, 0), []) of
           ((i1, j1, k1), non_adjacent) \<Rightarrow>
             (if k1 \<noteq> 0 then non_adjacent @ [(i1, j1, k1)] else non_adjacent) @ [(la, lb, 0)])"

text \<open>
  \<^verbatim>\<open>
  def _calculate_ratio(matches, length):
      if length:
          return 2.0 * matches / length
      return 1.0
  \<close>
\<close>

definition calculate_ratio :: "nat \<Rightarrow> nat \<Rightarrow> rat" where
  "calculate_ratio matches len = (if len \<noteq> 0 then 2 * of_nat matches / of_nat len else 1)"

text \<open>\<^verbatim>\<open>matches = sum(triple[-1] for triple in self.get_matching_blocks())\<close>\<close>

definition ratio :: "string \<Rightarrow> string \<Rightarrow> rat" where
  "ratio a b =
     calculate_ratio (sum_list (map (\<lambda>(i, j, k). k) (get_matching_blocks a b))) (length a + length b)"

text \<open>
  \<^verbatim>\<open>quick_ratio\<close>: \<^verbatim>\<open>fullbcount\<close> counts the elements of \<open>b\<close>; \<^verbatim>\<open>avail\<close> holds, for the
  elements of \<open>a\<close> seen so far, how many of them are left in \<open>b\<close> (it goes negative).
  \<^verbatim>\<open>
  for elt in self.a:
      if availhas(elt):
          numb = avail[elt]
      else:
          numb = fullbcount.get(elt, 0)
      avail[elt] = numb - 1
      if numb > 0:
          matches = matches + 1
  \<close>
\<close>

definition count_elt :: "char \<Rightarrow> (char \<times> nat) list \<Rightarrow> (char \<times> nat) list" where
  "count_elt elt fullbcount = AList.update elt (dict_get fullbcount elt 0 + 1) fullbcount"

definition use_elt ::
  "(char \<times> nat) list \<Rightarrow> char \<Rightarrow> (char \<times> int) list \<times> nat \<Rightarrow> (char \<times> int) list \<times> nat" where
  "use_elt fullbcount elt st =
     (case st of (avail, matches) \<Rightarrow>
        let numb = (case map_of avail elt of
                      Some n \<Rightarrow> n
                    | None \<Rightarrow> int (dict_get fullbcount elt 0))
        in (AList.update elt (numb - 1) avail, if numb > 0 then matches + 1 else matches))"

definition quick_ratio :: "string \<Rightarrow> string \<Rightarrow> rat" where
  "quick_ratio a b =
     (let fullbcount = fold count_elt b [];
          matches = snd (fold (use_elt fullbcount) a ([], 0))
      in calculate_ratio matches (length a + length b))"

definition real_quick_ratio :: "string \<Rightarrow> string \<Rightarrow> rat" where
  "real_quick_ratio a b =
     (let la = length a; lb = length b in calculate_ratio (min la lb) (la + lb))"

subsection \<open>\<^verbatim>\<open>heapq.nlargest\<close> and \<^verbatim>\<open>difflib.get_close_matches\<close>\<close>

text \<open>
  For \<open>n = 1\<close>, \<^verbatim>\<open>nlargest\<close> is \<^verbatim>\<open>max\<close>, which keeps the first of the greatest items;
  otherwise it is \<^verbatim>\<open>sorted(iterable, reverse=True)[:n]\<close>. The items are pairs of a score
  and a string, which Python compares lexicographically, the strings by code points:
  the order of pairs and of lists of characters used here.
\<close>

definition py_max :: "('a :: linorder) list \<Rightarrow> 'a option" where
  "py_max xs = (case xs of [] \<Rightarrow> None
                | x # rest \<Rightarrow> Some (fold (\<lambda>item best. if best < item then item else best) rest x))"

definition nlargest :: "nat \<Rightarrow> ('a :: linorder) list \<Rightarrow> 'a list" where
  "nlargest n xs =
     (if n = 1 then (case py_max xs of None \<Rightarrow> [] | Some result \<Rightarrow> [result])
      else take n (rev (sort xs)))"

text \<open>
  \<^verbatim>\<open>
  if not n >  0: raise ValueError(...)
  if not 0.0 <= cutoff <= 1.0: raise ValueError(...)
  result = []
  s = SequenceMatcher()
  s.set_seq2(word)
  for x in possibilities:
      s.set_seq1(x)
      if s.real_quick_ratio() >= cutoff and s.quick_ratio() >= cutoff and s.ratio() >= cutoff:
          result.append((s.ratio(), x))
  result = _nlargest(n, result)
  return [x for score, x in result]
  \<close>
  The first sequence is the possibility, the second the word.
\<close>

definition close_enough :: "string \<Rightarrow> rat \<Rightarrow> string \<Rightarrow> bool" where
  "close_enough word cutoff x \<longleftrightarrow>
     real_quick_ratio x word \<ge> cutoff \<and> quick_ratio x word \<ge> cutoff \<and> ratio x word \<ge> cutoff"

definition get_close_matches :: "string \<Rightarrow> string list \<Rightarrow> nat \<Rightarrow> rat \<Rightarrow> error + string list" where
  "get_close_matches word possibilities n cutoff =
     (if \<not> n > 0 then Inl ValueError
      else if \<not> (0 \<le> cutoff \<and> cutoff \<le> 1) then Inl ValueError
      else
        let result = map (\<lambda>x. (ratio x word, x)) (filter (close_enough word cutoff) possibilities)
        in Inr (map snd (nlargest n result)))"

subsection \<open>\<^verbatim>\<open>check_purchase_history\<close>\<close>

text \<open>
  \<open>rows\<close> stands for the first column of the rows that the query for the user's posts
  returned (the empty list when the query raised).
  \<^verbatim>\<open>past_items = [(r[0] or "") for r in rows]\<close>
\<close>

definition truthy :: "pyval \<Rightarrow> bool" where
  "truthy v = (case v of PNone \<Rightarrow> False | PStr s \<Rightarrow> s \<noteq> [] | PInt n \<Rightarrow> n \<noteq> 0)"

definition past_items_of :: "pyval list \<Rightarrow> pyval list" where
  "past_items_of rows = map (\<lambda>r. if truthy r then r else PStr []) rows"

text \<open>\<^verbatim>\<open>str(p)\<close>, which an f-string applies to the value it shows.\<close>

fun digits :: "nat \<Rightarrow> string" where
  "digits n = (if n < 10 then [char_of (48 + n)] else digits (n div 10) @ [char_of (48 + n mod 10)])"

definition py_str :: "pyval \<Rightarrow> string" where
  "py_str p =
     (case p of
        PNone \<Rightarrow> ''None''
      | PStr s \<Rightarrow> s
      | PInt n \<Rightarrow> (if n < 0 then CHR ''-'' # digits (nat (- n)) else digits (nat n)))"

text \<open>\<^verbatim>\<open>p.lower()\<close> on a value that may not be a string.\<close>

definition py_lower :: "pyval \<Rightarrow> error + string" where
  "py_lower p = (case p of PStr s \<Rightarrow> Inr (lower s) | _ \<Rightarrow> Inl AttributeError)"

text \<open>\<^verbatim>\<open>names = [p.lower() for p in past_items]\<close>: the first element that raises ends it.\<close>

fun lower_all :: "pyval list \<Rightarrow> error + string list" where
  "lower_all [] = Inr []"
| "lower_all (p # ps) =
     (case py_lower p of
        Inl e \<Rightarrow> Inl e
      | Inr l \<Rightarrow> (case lower_all ps of Inl e \<Rightarrow> Inl e | Inr ls \<Rightarrow> Inr (l # ls)))"

text \<open>\<^verbatim>\<open>orig = next((p for p in past_items if p.lower() == matched), matched)\<close>\<close>

fun next_orig :: "pyval list \<Rightarrow> string \<Rightarrow> error + string" where
  "next_orig [] matched = Inr matched"
| "next_orig (PStr s # ps) matched = (if lower s = matched then Inr s else next_orig ps matched)"
| "next_orig (p # ps) matched = Inl AttributeError"

text \<open>
  The body of the first \<^verbatim>\<open>try\<close>: \<open>Inr (Some orig)\<close> when it reaches its \<^verbatim>\<open>return\<close>,
  \<open>Inr None\<close> when \<^verbatim>\<open>matches\<close> is empty, \<open>Inl\<close> when something in it raised.
\<close>

definition stage1 :: "pyval list \<Rightarrow> string \<Rightarrow> rat \<Rightarrow> error + string option" where
  "stage1 past_items item_name threshold =
     (case lower_all past_items of
        Inl e \<Rightarrow> Inl e
      | Inr names \<Rightarrow>
          (case get_close_matches (lower item_name) names 1 threshold of
             Inl e \<Rightarrow> Inl e
           | Inr matches \<Rightarrow>
               (case matches of
                  [] \<Rightarrow> Inr None
                | matched # _ \<Rightarrow>
                    (case next_orig past_items matched of
                       Inl e \<Rightarrow> Inl e
                     | Inr orig \<Rightarrow> Inr (Some orig)))))"

text \<open>
  The body of the \<^verbatim>\<open>try\<close> inside the fallback loop: whether the ratio reaches the
  threshold, or what \<^verbatim>\<open>past.lower()\<close> raised.
\<close>

definition stage2_test :: "pyval \<Rightarrow> string \<Rightarrow> rat \<Rightarrow> error + bool" where
  "stage2_test past item_name threshold =
     (case py_lower past of
        Inl e \<Rightarrow> Inl e
      | Inr l \<Rightarrow> Inr (ratio l (lower item_name) \<ge> threshold))"

text \<open>
  \<^verbatim>\<open>
  for past in past_items:
      try:
          ratio = SequenceMatcher(None, past.lower(), item_name.lower()).ratio()
          if ratio >= threshold:
              return f"... '{past}' ..."
      except Exception:
          continue
  return "... No close match ..."
  \<close>
\<close>

fun stage2 :: "pyval list \<Rightarrow> string \<Rightarrow> rat \<Rightarrow> error + verdict" where
  "stage2 [] item_name threshold = Inr NoMatch"
| "stage2 (past # rest) item_name threshold =
     (case stage2_test past item_name threshold of
        Inr True \<Rightarrow> Inr (Match (py_str past))
      | _ \<Rightarrow> stage2 rest item_name threshold)"

definition check_purchase_history :: "pyval list \<Rightarrow> string \<Rightarrow> rat \<Rightarrow> error + verdict" where
  "check_purchase_history rows item_name threshold =
     (let past_items = past_items_of rows
      in if past_items = [] then Inr NoHistory
         else
           (case stage1 past_items item_name threshold of
              Inr (Some orig) \<Rightarrow> Inr (Match orig)
            | _ \<Rightarrow> stage2 past_items item_name threshold))"

subsection \<open>The number of matched characters\<close>

text \<open>
  \<open>window xs lo hi\<close> is the slice \<^verbatim>\<open>xs[lo:hi]\<close>. A window of the work list can hold at most
  as many matched characters as the two slices share as multisets.
\<close>

definition window :: "'a list \<Rightarrow> nat \<Rightarrow> nat \<Rightarrow> 'a list" where
  "window xs lo hi = take (hi - lo) (drop lo xs)"

definition block_sizes :: "(nat \<times> nat \<times> nat) list \<Rightarrow> nat" where
  "block_sizes blocks = sum_list (map (\<lambda>(i, j, k). k) blocks)"

definition window_ok :: "string \<Rightarrow> string \<Rightarrow> nat \<times> nat \<times> nat \<times> nat \<Rightarrow> bool" where
  "window_ok a b w = (case w of (alo, ahi, blo, bhi) \<Rightarrow>
     alo \<le> ahi \<and> ahi \<le> length a \<and> blo \<le> bhi \<and> bhi \<le> length b)"

definition capacity :: "string \<Rightarrow> string \<Rightarrow> nat \<times> nat \<times> nat \<times> nat \<Rightarrow> nat" where
  "capacity a b w = (case w of (alo, ahi, blo, bhi) \<Rightarrow>
     size (mset (window a alo ahi) \<inter># mset (window b blo bhi)))"

lemma window_split:
  assumes "lo \<le> i" "i \<le> hi"
  shows "window xs lo hi = window xs lo i @ window xs i hi"
proof -
  have "take (hi - lo) (drop lo xs) = take (i - lo) (drop lo xs) @ take (hi - i) (drop (i - lo) (drop lo xs))"
    using assms take_add [of "i - lo" "hi - i" "drop lo xs"] by simp
  then show ?thesis using assms by (simp add: window_def)
qed

lemma window_eq_nth:
  assumes "i + k \<le> length xs" "j + k \<le> length ys" "\<forall>x<k. xs ! (i + x) = ys ! (j + x)"
  shows "window xs i (i + k) = window ys j (j + k)"
  using assms by (auto simp: window_def list_eq_iff_nth_eq)

lemma size_inter_split:
  "size (A1 \<inter># B1) + size K + size (A2 \<inter># B2) \<le> size ((A1 + K + A2) \<inter># (B1 + K + B2))"
proof -
  have 1: "A1 \<inter># B1 + K + A2 \<inter># B2 \<subseteq># A1 + K + A2"
    by (intro mset_subset_eq_mono_add) simp_all
  have 2: "A1 \<inter># B1 + K + A2 \<inter># B2 \<subseteq># B1 + K + B2"
    by (intro mset_subset_eq_mono_add) simp_all
  from 1 2 have "A1 \<inter># B1 + K + A2 \<inter># B2 \<subseteq># (A1 + K + A2) \<inter># (B1 + K + B2)"
    by simp
  from size_mset_mono [OF this] show ?thesis by simp
qed

lemma capacity_split:
  assumes w: "window_ok a b (alo, ahi, blo, bhi)"
    and blk: "block_ok a b alo ahi blo bhi (i, j, k)" and k: "k \<noteq> 0"
  shows "capacity a b (alo, i, blo, j) + k + capacity a b (i + k, ahi, j + k, bhi)
           \<le> capacity a b (alo, ahi, blo, bhi)"
proof -
  from blk k have bd: "alo \<le> i" "i + k \<le> ahi" "blo \<le> j" "j + k \<le> bhi"
    and eq: "\<forall>x<k. a ! (i + x) = b ! (j + x)"
    by (simp_all add: block_ok_def)
  from w have len: "ahi \<le> length a" "bhi \<le> length b" by (simp_all add: window_ok_def)
  have sa: "window a alo ahi = window a alo i @ window a i (i + k) @ window a (i + k) ahi"
    using window_split [of alo i ahi a] window_split [of i "i + k" ahi a] bd by simp
  have sb: "window b blo bhi = window b blo j @ window b j (j + k) @ window b (j + k) bhi"
    using window_split [of blo j bhi b] window_split [of j "j + k" bhi b] bd by simp
  have mid: "window a i (i + k) = window b j (j + k)"
    by (rule window_eq_nth) (use bd len eq in simp_all)
  have sz: "length (window b j (j + k)) = k"
    using bd len by (simp add: window_def)
  show ?thesis
    unfolding capacity_def prod.case sa sb mid mset_append
    using size_inter_split [of "mset (window a alo i)" "mset (window b blo j)"
        "mset (window b j (j + k))" "mset (window a (i + k) ahi)" "mset (window b (j + k) bhi)"]
    by (simp add: sz add.assoc)
qed

lemma matching_blocks_loop_sizes:
  assumes "\<forall>w\<in>set queue. window_ok a b w"
  shows "block_sizes (matching_blocks_loop a b queue blocks)
           \<le> block_sizes blocks + sum_list (map (capacity a b) queue)"
  using assms
proof (induction a b queue blocks rule: matching_blocks_loop.induct)
  case (1 a b matching_blocks)
  show ?case by simp
next
  case (2 a b alo ahi blo bhi queue matching_blocks)
  obtain i j k where f: "find_longest_match a b (chain_b b) alo ahi blo bhi = (i, j, k)"
    by (cases "find_longest_match a b (chain_b b) alo ahi blo bhi") auto
  have blk: "block_ok a b alo ahi blo bhi (i, j, k)"
    using find_longest_match_ok [OF chain_b_sound, of a b alo ahi blo bhi] f by simp
  have w: "window_ok a b (alo, ahi, blo, bhi)" and rest: "\<forall>w\<in>set queue. window_ok a b w"
    using "2.prems" by simp_all
  show ?case
  proof (cases "k = 0")
    case True
    with f have "matching_blocks_loop a b ((alo, ahi, blo, bhi) # queue) matching_blocks
        = matching_blocks_loop a b queue matching_blocks" by simp
    moreover have "block_sizes (matching_blocks_loop a b queue matching_blocks)
        \<le> block_sizes matching_blocks + sum_list (map (capacity a b) queue)"
      using "2.IH"(2) [OF f [symmetric] refl _ rest] True by simp
    ultimately show ?thesis by simp
  next
    case False
    let ?right = "if i + k < ahi \<and> j + k < bhi then [(i + k, ahi, j + k, bhi)] else []"
    let ?left = "if alo < i \<and> blo < j then [(alo, i, blo, j)] else []"
    from blk False have bd: "alo \<le> i" "i + k \<le> ahi" "blo \<le> j" "j + k \<le> bhi"
      by (simp_all add: block_ok_def)
    have ok: "\<forall>w\<in>set (?right @ ?left @ queue). window_ok a b w"
      using w rest bd by (auto simp: window_ok_def)
    have step: "matching_blocks_loop a b ((alo, ahi, blo, bhi) # queue) matching_blocks
        = matching_blocks_loop a b (?right @ ?left @ queue) (matching_blocks @ [(i, j, k)])"
      using f False by simp
    have "block_sizes (matching_blocks_loop a b (?right @ ?left @ queue) (matching_blocks @ [(i, j, k)]))
        \<le> block_sizes (matching_blocks @ [(i, j, k)]) + sum_list (map (capacity a b) (?right @ ?left @ queue))"
      using "2.IH"(1) [OF f [symmetric] refl _ ok] False by simp
    also have "\<dots> \<le> block_sizes matching_blocks + k
        + (capacity a b (i + k, ahi, j + k, bhi) + capacity a b (alo, i, blo, j))
        + sum_list (map (capacity a b) queue)"
      by (simp add: block_sizes_def)
    also have "\<dots> \<le> block_sizes matching_blocks
        + (capacity a b (alo, ahi, blo, bhi) + sum_list (map (capacity a b) queue))"
      using capacity_split [OF w blk False] by simp
    finally show ?thesis unfolding step by simp
  qed
qed

definition matches :: "string \<Rightarrow> string \<Rightarrow> nat" where
  "matches a b = block_sizes (get_matching_blocks a b)"

lemma ratio_matches: "ratio a b = calculate_ratio (matches a b) (length a + length b)"
  by (simp add: ratio_def matches_def block_sizes_def)

lemma block_sizes_append: "block_sizes (xs @ ys) = block_sizes xs + block_sizes ys"
  by (simp add: block_sizes_def)

lemma block_sizes_sort: "block_sizes (sort xs) = block_sizes xs"
proof -
  have "block_sizes ys = sum_mset (image_mset (\<lambda>(i, j, k). k) (mset ys))" for ys
    unfolding block_sizes_def by (simp add: sum_mset_sum_list [symmetric])
  then show ?thesis by simp
qed

lemma merge_adjacent_total:
  "(case merge_adjacent x st of ((i1, j1, k1), na) \<Rightarrow> k1 + block_sizes na)
     = (case st of ((i1, j1, k1), na) \<Rightarrow> k1 + block_sizes na) + block_sizes [x]"
  by (cases x; cases st) (auto simp: merge_adjacent_def block_sizes_def)

lemma fold_merge_adjacent_total:
  "(case fold merge_adjacent xs st of ((i1, j1, k1), na) \<Rightarrow> k1 + block_sizes na)
     = (case st of ((i1, j1, k1), na) \<Rightarrow> k1 + block_sizes na) + block_sizes xs"
proof (induction xs arbitrary: st)
  case Nil
  show ?case by (simp add: block_sizes_def)
next
  case (Cons x xs)
  have "block_sizes (x # xs) = block_sizes [x] + block_sizes xs"
    by (simp add: block_sizes_def)
  then show ?case
    using Cons.IH [of "merge_adjacent x st"] merge_adjacent_total [of x st] by simp
qed

lemma matches_loop:
  "matches a b = block_sizes (matching_blocks_loop a b [(0, length a, 0, length b)] [])"
proof -
  let ?bs = "sort (matching_blocks_loop a b [(0, length a, 0, length b)] [])"
  obtain i1 j1 k1 na where r: "fold merge_adjacent ?bs ((0, 0, 0), []) = ((i1, j1, k1), na)"
    by (metis prod.exhaust)
  from fold_merge_adjacent_total [of ?bs "((0, 0, 0), [])"] r
  have "k1 + block_sizes na = block_sizes ?bs" by (simp add: block_sizes_def)
  moreover have "matches a b = k1 + block_sizes na"
    unfolding matches_def get_matching_blocks_def Let_def r
    by (simp add: block_sizes_def)
  ultimately show ?thesis by (simp add: block_sizes_sort)
qed

lemma matches_le_inter: "matches a b \<le> size (mset a \<inter># mset b)"
proof -
  have "\<forall>w\<in>set [(0, length a, 0, length b)]. window_ok a b w"
    by (simp add: window_ok_def)
  from matching_blocks_loop_sizes [OF this, of "[]"]
  show ?thesis by (simp add: matches_loop block_sizes_def capacity_def window_def)
qed

subsection \<open>\<^verbatim>\<open>quick_ratio\<close> counts the multiset intersection\<close>

lemma fold_count_elt_get:
  "dict_get (fold count_elt xs d) c 0 = dict_get d c 0 + count_list xs c"
proof (induction xs arbitrary: d)
  case Nil
  show ?case by simp
next
  case (Cons x xs)
  have "dict_get (count_elt x d) c 0 = dict_get d c 0 + (if x = c then 1 else 0)"
    by (auto simp: count_elt_def dict_get_def update_conv' split: option.splits)
  then show ?case by (simp add: Cons.IH)
qed

definition avail_get :: "(char \<times> nat) list \<Rightarrow> (char \<times> int) list \<Rightarrow> char \<Rightarrow> int" where
  "avail_get fullbcount avail c =
     (case map_of avail c of Some n \<Rightarrow> n | None \<Rightarrow> int (dict_get fullbcount c 0))"

lemma fold_use_elt:
  assumes "\<forall>c. count B c = nat (avail_get fb avail c)"
  shows "snd (fold (use_elt fb) xs (avail, m)) = m + size (mset xs \<inter># B)"
  using assms
proof (induction xs arbitrary: avail m B)
  case Nil
  show ?case by simp
next
  case (Cons x xs)
  let ?numb = "avail_get fb avail x"
  let ?avail' = "AList.update x (?numb - 1) avail"
  have step: "use_elt fb x (avail, m) = (?avail', if ?numb > 0 then m + 1 else m)"
    by (simp add: use_elt_def avail_get_def Let_def)
  have get': "avail_get fb ?avail' c = (if c = x then ?numb - 1 else avail_get fb avail c)" for c
    by (simp add: avail_get_def update_conv')
  show ?case
  proof (cases "?numb > 0")
    case True
    with Cons.prems have inB: "x \<in># B" by (metis count_greater_zero_iff zero_less_nat_eq)
    have "\<forall>c. count (B - {#x#}) c = nat (avail_get fb ?avail' c)"
      using Cons.prems by (auto simp: get' nat_diff_distrib)
    from Cons.IH [OF this, of "m + 1"]
    have "snd (fold (use_elt fb) (x # xs) (avail, m)) = m + 1 + size (mset xs \<inter># (B - {#x#}))"
      using True by (simp add: step)
    moreover have "mset (x # xs) \<inter># B = add_mset x (mset xs \<inter># (B - {#x#}))"
      using inB by (simp add: inter_add_left2)
    ultimately show ?thesis by simp
  next
    case False
    with Cons.prems have notB: "x \<notin># B" by (simp add: not_in_iff)
    have "\<forall>c. count B c = nat (avail_get fb ?avail' c)"
      using Cons.prems False by (auto simp: get')
    from Cons.IH [OF this, of m]
    have "snd (fold (use_elt fb) (x # xs) (avail, m)) = m + size (mset xs \<inter># B)"
      using False by (simp add: step)
    moreover have "mset (x # xs) \<inter># B = mset xs \<inter># B"
      using notB by (simp add: inter_add_left1)
    ultimately show ?thesis by simp
  qed
qed

lemma quick_ratio_inter:
  "quick_ratio a b = calculate_ratio (size (mset a \<inter># mset b)) (length a + length b)"
proof -
  have "dict_get (fold count_elt b []) c 0 = count_list b c" for c
    by (simp add: fold_count_elt_get) (simp add: dict_get_def)
  then have "\<forall>c. count (mset b) c = nat (avail_get (fold count_elt b []) [] c)"
    by (simp add: avail_get_def count_mset)
  from fold_use_elt [OF this, of a 0] show ?thesis
    by (simp add: quick_ratio_def Let_def)
qed

subsection \<open>The order of the three ratios\<close>

lemma calculate_ratio_mono: "m \<le> m' \<Longrightarrow> calculate_ratio m len \<le> calculate_ratio m' len"
  by (simp add: calculate_ratio_def divide_right_mono)

lemma calculate_ratio_nonneg: "0 \<le> calculate_ratio m len"
  by (simp add: calculate_ratio_def)

lemma size_inter_le_min: "size (A \<inter># B) \<le> min (size A) (size B)"
  by (simp add: size_mset_mono)

lemma ratio_le_quick_ratio: "ratio a b \<le> quick_ratio a b"
  unfolding ratio_matches quick_ratio_inter
  by (rule calculate_ratio_mono) (rule matches_le_inter)

lemma quick_ratio_le_real_quick_ratio: "quick_ratio a b \<le> real_quick_ratio a b"
  unfolding quick_ratio_inter real_quick_ratio_def Let_def
  using size_inter_le_min [of "mset a" "mset b"] by (intro calculate_ratio_mono) simp

lemma real_quick_ratio_le_1: "real_quick_ratio a b \<le> 1"
proof -
  have "2 * min (length a) (length b) \<le> length a + length b" by simp
  then have "(2 :: rat) * of_nat (min (length a) (length b)) \<le> of_nat (length a + length b)"
    by (metis of_nat_le_iff of_nat_mult of_nat_numeral)
  then show ?thesis
    by (simp add: real_quick_ratio_def calculate_ratio_def Let_def divide_le_eq)
qed

lemma ratio_le_1: "ratio a b \<le> 1"
  using ratio_le_quick_ratio quick_ratio_le_real_quick_ratio real_quick_ratio_le_1
  by (meson order_trans)

lemma ratio_nonneg: "0 \<le> ratio a b"
  unfolding ratio_matches by (rule calculate_ratio_nonneg)

lemma close_enough_iff: "close_enough word cutoff x \<longleftrightarrow> cutoff \<le> ratio x word"
  unfolding close_enough_def
  using ratio_le_quick_ratio [of x word] quick_ratio_le_real_quick_ratio [of x word]
  by auto

lemma matches_le_length: "matches a b \<le> length a" "matches a b \<le> length b"
  using matches_le_inter [of a b] size_inter_le_min [of "mset a" "mset b"] by simp_all

lemma ratio_Nil_right: "a \<noteq> [] \<Longrightarrow> ratio a [] = 0"
  using matches_le_length(2) [of a "[]"] by (simp add: ratio_matches calculate_ratio_def)

lemma ratio_Nil_left: "b \<noteq> [] \<Longrightarrow> ratio [] b = 0"
  using matches_le_length(1) [of "[]" b] by (simp add: ratio_matches calculate_ratio_def)

lemma ratio_Nil_Nil: "ratio [] [] = 1"
  by (simp add: ratio_matches calculate_ratio_def)

subsection \<open>\<^verbatim>\<open>max\<close> and \<^verbatim>\<open>get_close_matches\<close>\<close>

lemma fold_max_greatest:
  "Max (insert x (set rest)) = fold (\<lambda>item best. if best < item then item else best) rest (x :: 'a :: linorder)"
proof (induction rest arbitrary: x)
  case Nil
  show ?case by simp
next
  case (Cons y ys)
  have "Max (insert x (set (y # ys))) = Max (insert (max x y) (set ys))"
    by (metis List.finite_set Max_insert finite_insert insert_commute insert_not_empty list.simps(15) max.commute Max_singleton max.assoc)
  also have "max x y = (if x < y then y else x)" by (auto simp: max_def)
  finally show ?case using Cons.IH [of "if x < y then y else x"] by simp
qed

lemma py_max_Some:
  "xs \<noteq> [] \<Longrightarrow> py_max xs = Some (Max (set xs))"
  by (cases xs) (simp_all add: py_max_def fold_max_greatest [symmetric])

lemma py_max_None: "py_max [] = None"
  by (simp add: py_max_def)

text \<open>The pairs that pass the three tests of \<^verbatim>\<open>get_close_matches\<close>.\<close>

definition scored :: "string \<Rightarrow> rat \<Rightarrow> string list \<Rightarrow> (rat \<times> string) list" where
  "scored word cutoff possibilities =
     map (\<lambda>x. (ratio x word, x)) (filter (\<lambda>x. cutoff \<le> ratio x word) possibilities)"

lemma get_close_matches_1:
  "get_close_matches word possibilities 1 cutoff =
     (if 0 \<le> cutoff \<and> cutoff \<le> 1
      then Inr (if scored word cutoff possibilities = [] then []
                else [snd (Max (set (scored word cutoff possibilities)))])
      else Inl ValueError)"
proof -
  have f: "filter (close_enough word cutoff) possibilities = filter (\<lambda>x. cutoff \<le> ratio x word) possibilities"
    by (rule filter_cong) (simp_all add: close_enough_iff)
  show ?thesis
    unfolding get_close_matches_def Let_def f scored_def [symmetric] nlargest_def
    by (cases "scored word cutoff possibilities = []") (simp_all add: py_max_None py_max_Some)
qed

subsection \<open>The first stage\<close>

text \<open>\<open>strings ps\<close> are the texts of a list of values that are all strings.\<close>

definition all_str :: "pyval list \<Rightarrow> bool" where
  "all_str ps \<longleftrightarrow> (\<forall>p\<in>set ps. \<exists>s. p = PStr s)"

fun texts :: "pyval list \<Rightarrow> string list" where
  "texts [] = []"
| "texts (PStr s # ps) = s # texts ps"
| "texts (p # ps) = texts ps"

lemma all_str_Cons: "all_str (p # ps) \<longleftrightarrow> (\<exists>s. p = PStr s) \<and> all_str ps"
  by (simp add: all_str_def)

lemma lower_all_all_str: "all_str ps \<Longrightarrow> lower_all ps = Inr (map lower (texts ps))"
proof (induction ps)
  case Nil
  show ?case by simp
next
  case (Cons p ps)
  then obtain s where "p = PStr s" and "all_str ps" by (auto simp: all_str_Cons)
  with Cons.IH show ?case by (simp add: py_lower_def)
qed

lemma lower_all_not_all_str: "\<not> all_str ps \<Longrightarrow> lower_all ps = Inl AttributeError"
proof (induction ps)
  case Nil
  then show ?case by (simp add: all_str_def)
next
  case (Cons p ps)
  show ?case
  proof (cases p)
    case (PStr s)
    with Cons.prems have "\<not> all_str ps" by (simp add: all_str_Cons)
    with Cons.IH PStr show ?thesis by (simp add: py_lower_def)
  qed (simp_all add: py_lower_def)
qed

lemma texts_set: "s \<in> set (texts ps) \<longleftrightarrow> PStr s \<in> set ps"
  by (induction ps rule: texts.induct) auto

lemma next_orig_find:
  assumes "all_str ps" and "matched \<in> lower ` set (texts ps)"
  shows "\<exists>orig. next_orig ps matched = Inr orig
           \<and> List.find (\<lambda>s. lower s = matched) (texts ps) = Some orig"
  using assms
proof (induction ps)
  case Nil
  then show ?case by simp
next
  case (Cons p ps)
  then obtain s where p: "p = PStr s" and rest: "all_str ps" by (auto simp: all_str_Cons)
  show ?case
  proof (cases "lower s = matched")
    case True
    with p show ?thesis by simp
  next
    case False
    with Cons.prems(2) p have "matched \<in> lower ` set (texts ps)" by auto
    from Cons.IH [OF rest this] False p show ?thesis by simp
  qed
qed

subsection \<open>A sequence matched against itself\<close>

text \<open>
  \<open>cl a i j\<close> is the value that \<^verbatim>\<open>j2len\<close> holds for \<open>j\<close> after row \<open>i\<close> when \<open>a\<close> is
  matched against itself from position 0: the length of the common run of elements that
  are not popular ending at \<open>(i, j)\<close>. It is symmetric and greatest on the diagonal, so
  the first longest run that the scan meets lies on the diagonal.
\<close>

fun cl :: "string \<Rightarrow> nat \<Rightarrow> nat \<Rightarrow> nat" where
  "cl a 0 j = (if a ! j = a ! 0 \<and> \<not> popular a (a ! 0) then 1 else 0)"
| "cl a (Suc i) j =
     (if a ! j = a ! Suc i \<and> \<not> popular a (a ! Suc i)
      then (if j = 0 then 1 else cl a i (j - 1) + 1) else 0)"

definition prevlen :: "string \<Rightarrow> nat \<Rightarrow> nat \<Rightarrow> nat" where
  "prevlen a i j = (if i = 0 then 0 else cl a (i - 1) j)"

lemma cl_sym: "cl a i j = cl a j i"
proof (induction i arbitrary: j)
  case 0
  show ?case by (cases j) auto
next
  case (Suc i)
  show ?case
  proof (cases j)
    case 0
    then show ?thesis by auto
  next
    case (Suc j')
    with Suc.IH [of j'] show ?thesis by auto
  qed
qed

lemma cl_diag: "cl a i j \<le> cl a i i"
proof (induction i arbitrary: j)
  case 0
  show ?case by simp
next
  case (Suc i)
  show ?case using Suc.IH [of "j - 1"] by simp
qed

lemma cl_step:
  assumes "a ! j = a ! i" "\<not> popular a (a ! i)"
  shows "cl a i j = (if j = 0 then 0 else prevlen a i (j - 1)) + 1"
  using assms by (cases i) (simp_all add: prevlen_def)

lemma cl_zero: "a ! j \<noteq> a ! i \<or> popular a (a ! i) \<Longrightarrow> cl a i j = 0"
  by (cases i) auto

lemma dict_get_update:
  "dict_get (AList.update k v d) k' dflt = (if k' = k then v else dict_get d k' dflt)"
  by (simp add: dict_get_def update_conv')

lemma scan_row_self:
  assumes "i < n"
    and "\<forall>j<n. dict_get j2len j 0 = prevlen a i j"
    and "sorted js" and "\<forall>j\<in>set js. j < n \<and> a ! j = a ! i" and "\<not> popular a (a ! i)"
    and "bi = bj" and "\<forall>r<i. \<forall>j<n. cl a r j \<le> bs"
    and "i \<in> set js \<or> cl a i i \<le> bs"
    and "scan_row j2len i 0 n js (new, bi, bj, bs) = (new', bi', bj', bs')"
  shows "bi' = bj' \<and> bs \<le> bs' \<and> cl a i i \<le> bs' \<and> (\<forall>j\<in>set js. cl a i j \<le> bs')
       \<and> (\<forall>j. dict_get new' j 0 = (if j \<in> set js then cl a i j else dict_get new j 0))"
  using assms(3,4,6,7,8,9)
proof (induction js arbitrary: new bi bj bs)
  case Nil
  then show ?case by simp
next
  case (Cons j js)
  let ?k = "(if j = 0 then 0 else dict_get j2len (j - 1) 0) + 1"
  have j: "j < n" "a ! j = a ! i" using Cons.prems(2) by simp_all
  have "j \<noteq> 0 \<Longrightarrow> dict_get j2len (j - 1) 0 = prevlen a i (j - 1)"
    using assms(2) j(1) by simp
  then have k: "?k = cl a i j"
    using cl_step [OF j(2) assms(5)] by simp
  have srt: "sorted js" and lt: "\<forall>j'\<in>set js. j \<le> j'" using Cons.prems(1) by simp_all
  have mem: "\<forall>j\<in>set js. j < n \<and> a ! j = a ! i" using Cons.prems(2) by simp
  show ?case
  proof (cases "?k > bs")
    case True
    have "j = i"
    proof (rule ccontr)
      assume ne: "j \<noteq> i"
      show False
      proof (cases "j < i")
        case True
        with Cons.prems(4) assms(1) have "cl a j i \<le> bs" by simp
        with \<open>?k > bs\<close> k show False by (simp add: cl_sym [of a i j])
      next
        case False
        with ne have "i < j" by simp
        with lt have "i \<notin> set (j # js)" by auto
        with Cons.prems(5) have "cl a i i \<le> bs" by simp
        with cl_diag [of a i j] \<open>?k > bs\<close> k show False by simp
      qed
    qed
    have res: "scan_row j2len i 0 n js (AList.update j ?k new, i + 1 - ?k, j + 1 - ?k, ?k)
        = (new', bi', bj', bs')"
      using Cons.prems(6) True j(1) by (simp add: Let_def)
    have "bi' = bj' \<and> ?k \<le> bs' \<and> cl a i i \<le> bs' \<and> (\<forall>j\<in>set js. cl a i j \<le> bs')
       \<and> (\<forall>j'. dict_get new' j' 0 = (if j' \<in> set js then cl a i j' else dict_get (AList.update j ?k new) j' 0))"
    proof (rule Cons.IH [OF srt mem _ _ _ res])
      show "i + 1 - ?k = j + 1 - ?k" using \<open>j = i\<close> by simp
      show "\<forall>r<i. \<forall>j<n. cl a r j \<le> ?k" using Cons.prems(4) True by (meson le_trans less_imp_le)
      show "i \<in> set js \<or> cl a i i \<le> ?k" using k \<open>j = i\<close> by simp
    qed
    then show ?thesis using True k by (auto simp: dict_get_update)
  next
    case False
    have res: "scan_row j2len i 0 n js (AList.update j ?k new, bi, bj, bs) = (new', bi', bj', bs')"
      using Cons.prems(6) False j(1) by (simp add: Let_def)
    have "bi' = bj' \<and> bs \<le> bs' \<and> cl a i i \<le> bs' \<and> (\<forall>j\<in>set js. cl a i j \<le> bs')
       \<and> (\<forall>j'. dict_get new' j' 0 = (if j' \<in> set js then cl a i j' else dict_get (AList.update j ?k new) j' 0))"
    proof (rule Cons.IH [OF srt mem Cons.prems(3,4) _ res])
      show "i \<in> set js \<or> cl a i i \<le> bs"
        using Cons.prems(5) False k by auto
    qed
    then show ?thesis using False k by (auto simp: dict_get_update)
  qed
qed


definition self_inv :: "string \<Rightarrow> nat \<Rightarrow> (nat \<times> nat) list \<times> nat \<times> nat \<times> nat \<Rightarrow> bool" where
  "self_inv a m st = (case st of (j2len, bi, bj, bs) \<Rightarrow>
     (\<forall>j<length a. dict_get j2len j 0 = prevlen a m j) \<and> bi = bj
     \<and> (\<forall>r<m. \<forall>j<length a. cl a r j \<le> bs))"

lemma positions_sorted: "sorted (positions b c)"
  unfolding positions_def by (rule sorted_wrt_filter) simp

lemma positions_iff: "j \<in> set (positions b c) \<longleftrightarrow> j < length b \<and> b ! j = c"
  by (auto simp: positions_def)

lemma scan_rows_step_self:
  assumes inv: "self_inv a i st" and i: "i < length a"
  shows "self_inv a (Suc i) (scan_rows_step a (chain_b a) 0 (length a) i st)"
proof -
  obtain j2len bi bj bs where st: "st = (j2len, bi, bj, bs)" by (metis prod.exhaust)
  from inv have prev: "\<forall>j<length a. dict_get j2len j 0 = prevlen a i j"
    and diag: "bi = bj" and rows: "\<forall>r<i. \<forall>j<length a. cl a r j \<le> bs"
    by (simp_all add: self_inv_def st)
  show ?thesis
  proof (cases "popular a (a ! i)")
    case True
    then have "scan_rows_step a (chain_b a) 0 (length a) i st = ([], bi, bj, bs)"
      by (simp add: scan_rows_step_def st chain_b_get)
    moreover have "cl a i j = 0" for j using True by (simp add: cl_zero)
    ultimately show ?thesis
      using diag rows by (auto simp: self_inv_def prevlen_def dict_get_def less_Suc_eq)
  next
    case False
    let ?js = "positions a (a ! i)"
    obtain new' bi' bj' bs' where
      res: "scan_row j2len i 0 (length a) ?js ([], bi, bj, bs) = (new', bi', bj', bs')"
      by (metis prod.exhaust)
    have step: "scan_rows_step a (chain_b a) 0 (length a) i st = (new', bi', bj', bs')"
      using False res by (simp add: scan_rows_step_def st chain_b_get)
    have mem: "\<forall>j\<in>set ?js. j < length a \<and> a ! j = a ! i" by (simp add: positions_iff)
    have here: "i \<in> set ?js \<or> cl a i i \<le> bs" using i by (simp add: positions_iff)
    from scan_row_self [OF i prev positions_sorted mem False diag rows here res]
    have d: "bi' = bj'" and mono: "bs \<le> bs'" and row: "\<forall>j\<in>set ?js. cl a i j \<le> bs'"
      and new: "\<forall>j. dict_get new' j 0 = (if j \<in> set ?js then cl a i j else dict_get [] j 0)"
      by simp_all
    have z: "cl a i j = 0" if "j < length a" "j \<notin> set ?js" for j
      using that by (simp add: positions_iff cl_zero)
    have J: "\<forall>j<length a. dict_get new' j 0 = prevlen a (Suc i) j"
      using new z by (auto simp: prevlen_def dict_get_def)
    have R: "\<forall>r<Suc i. \<forall>j<length a. cl a r j \<le> bs'"
    proof (intro allI impI)
      fix r j assume r: "r < Suc i" and j: "j < length a"
      show "cl a r j \<le> bs'"
      proof (cases "r = i")
        case True
        then show ?thesis using row z [OF j] by (cases "j \<in> set ?js") simp_all
      next
        case False
        with r have "r < i" by simp
        with rows j mono show ?thesis by (meson le_trans)
      qed
    qed
    show ?thesis unfolding step self_inv_def using J d R by simp
  qed
qed

lemma scan_rows_upto_self:
  "m \<le> length a \<Longrightarrow>
     self_inv a m (fold (scan_rows_step a (chain_b a) 0 (length a)) [0..<m] ([], 0, 0, 0))"
proof (induction m)
  case 0
  show ?case by (simp add: self_inv_def prevlen_def dict_get_def)
next
  case (Suc m)
  then have "self_inv a m (fold (scan_rows_step a (chain_b a) 0 (length a)) [0..<m] ([], 0, 0, 0))"
    and "m < length a" by simp_all
  from scan_rows_step_self [OF this] show ?case by simp
qed

lemma extend_left_self:
  "extend_left False a a 0 0 (i, i, k) = (0, 0, k + i)"
proof (induction i arbitrary: k)
  case 0
  show ?case by (subst extend_left.simps) simp
next
  case (Suc i)
  have "extend_left False a a 0 0 (Suc i, Suc i, k) = extend_left False a a 0 0 (i, i, k + 1)"
    by (subst extend_left.simps) (simp add: isbjunk_def)
  then show ?case by (simp add: Suc.IH)
qed

lemma extend_right_self:
  "k \<le> n \<Longrightarrow> extend_right False a a n n (0, 0, k) = (0, 0, n)"
proof (induction "n - k" arbitrary: k)
  case 0
  then have "k = n" by simp
  then show ?case by (subst extend_right.simps) simp
next
  case (Suc d)
  then have lt: "k < n" and d: "d = n - (k + 1)" and le: "k + 1 \<le> n" by simp_all
  have "extend_right False a a n n (0, 0, k) = extend_right False a a n n (0, 0, k + 1)"
    using lt by (subst extend_right.simps) (simp add: isbjunk_def)
  then show ?case using Suc.hyps(1) [OF d le] by simp
qed

lemma extend_junk_id:
  "extend_left True a b alo blo m = m" "extend_right True a b ahi bhi m = m"
proof -
  obtain i j k where m: "m = (i, j, k)" by (metis prod.exhaust)
  show "extend_left True a b alo blo m = m"
    unfolding m by (subst extend_left.simps) (simp add: isbjunk_def)
  show "extend_right True a b ahi bhi m = m"
    unfolding m by (subst extend_right.simps) (simp add: isbjunk_def)
qed

lemma find_longest_match_self:
  "find_longest_match a a (chain_b a) 0 (length a) 0 (length a) = (0, 0, length a)"
proof -
  obtain j2len bi bj bs where
    s: "scan_rows a (chain_b a) 0 (length a) 0 (length a) = (j2len, bi, bj, bs)"
    by (metis prod.exhaust)
  from scan_rows_upto_self [of "length a" a] s have diag: "bi = bj"
    by (simp add: scan_rows_def self_inv_def)
  from scan_rows_ok [OF chain_b_sound, of a a 0 "length a" 0 "length a"] s
  have "bs + bi \<le> length a" by (auto simp: block_ok_def)
  then show ?thesis
    by (simp add: find_longest_match_def s diag extend_junk_id extend_left_self extend_right_self)
qed

lemma matches_self: "matches a a = length a"
proof (cases "a = []")
  case True
  have "matches [] [] \<le> length ([] :: string)" by (rule matches_le_length)
  with True show ?thesis by simp
next
  case False
  then show ?thesis
    by (simp add: matches_loop find_longest_match_self block_sizes_def)
qed

lemma ratio_self: "ratio a a = 1"
  by (simp add: ratio_matches matches_self calculate_ratio_def)

subsection \<open>What the first stage returns\<close>

text \<open>
  Stage 1 raises when an entry is not a string or the threshold lies outside [0, 1];
  otherwise it returns nothing when no entry reaches the threshold, and else the first
  entry whose lowercased text is that of the greatest pair of ratio and text.
\<close>

lemma stage1_not_all_str: "\<not> all_str ps \<Longrightarrow> stage1 ps item_name threshold = Inl AttributeError"
  by (simp add: stage1_def lower_all_not_all_str)

lemma stage1_all_str:
  assumes "all_str ps"
  shows "stage1 ps item_name threshold =
     (if 0 \<le> threshold \<and> threshold \<le> 1
      then (if scored (lower item_name) threshold (map lower (texts ps)) = [] then Inr None
            else (case next_orig ps (snd (Max (set (scored (lower item_name) threshold (map lower (texts ps)))))) of
                    Inl e \<Rightarrow> Inl e
                  | Inr orig \<Rightarrow> Inr (Some orig)))
      else Inl ValueError)"
  unfolding stage1_def get_close_matches_1 lower_all_all_str [OF assms] by simp

lemma stage1_out_of_range:
  "all_str ps \<Longrightarrow> \<not> (0 \<le> threshold \<and> threshold \<le> 1)
     \<Longrightarrow> stage1 ps item_name threshold = Inl ValueError"
  by (auto simp: stage1_all_str)

lemma stage1_raises:
  "\<not> all_str ps \<or> \<not> (0 \<le> threshold \<and> threshold \<le> 1)
     \<Longrightarrow> \<exists>e. stage1 ps item_name threshold = Inl e"
  using stage1_not_all_str stage1_out_of_range by (cases "all_str ps") blast+

lemma stage1_none:
  assumes "all_str ps" "0 \<le> threshold" "threshold \<le> 1"
    and "scored (lower item_name) threshold (map lower (texts ps)) = []"
  shows "stage1 ps item_name threshold = Inr None"
  using assms by (simp add: stage1_all_str)

lemma scored_set:
  "(r, x) \<in> set (scored word cutoff possibilities)
     \<longleftrightarrow> x \<in> set possibilities \<and> cutoff \<le> ratio x word \<and> r = ratio x word"
  by (auto simp: scored_def)

lemma stage1_some:
  assumes "all_str ps" "0 \<le> threshold" "threshold \<le> 1"
    and "scored (lower item_name) threshold (map lower (texts ps)) \<noteq> []"
  shows "\<exists>orig. stage1 ps item_name threshold = Inr (Some orig)
     \<and> List.find (\<lambda>s. lower s = snd (Max (set (scored (lower item_name) threshold (map lower (texts ps))))))
          (texts ps) = Some orig"
proof -
  let ?sc = "scored (lower item_name) threshold (map lower (texts ps))"
  let ?m = "Max (set ?sc)"
  have "?m \<in> set ?sc" using assms(4) by (intro Max_in) simp_all
  then have "snd ?m \<in> lower ` set (texts ps)"
    using scored_set [of "fst ?m" "snd ?m"] by auto
  from next_orig_find [OF assms(1) this]
  obtain orig where "next_orig ps (snd ?m) = Inr orig"
    "List.find (\<lambda>s. lower s = snd ?m) (texts ps) = Some orig" by blast
  then show ?thesis
    using assms by (simp add: stage1_all_str)
qed

text \<open>What the first stage returns is an entry that reaches the threshold.\<close>

lemma stage1_sound:
  assumes "stage1 ps item_name threshold = Inr (Some orig)"
  shows "PStr orig \<in> set ps \<and> threshold \<le> ratio (lower orig) (lower item_name)"
proof -
  let ?sc = "scored (lower item_name) threshold (map lower (texts ps))"
  let ?m = "Max (set ?sc)"
  have str: "all_str ps" using assms stage1_not_all_str [of ps] by (cases "all_str ps") auto
  have rng: "0 \<le> threshold \<and> threshold \<le> 1"
    using assms stage1_out_of_range [OF str, of threshold] by (cases "0 \<le> threshold \<and> threshold \<le> 1") auto
  have ne: "?sc \<noteq> []" using assms stage1_none [OF str] rng by auto
  from stage1_some [OF str _ _ ne] rng assms
  have f: "List.find (\<lambda>s. lower s = snd ?m) (texts ps) = Some orig" by auto
  then have o: "orig \<in> set (texts ps)" "lower orig = snd ?m"
    by (auto simp: find_Some_iff)
  have "?m \<in> set ?sc" using ne by (intro Max_in) simp_all
  then have "threshold \<le> ratio (snd ?m) (lower item_name)"
    using scored_set [of "fst ?m" "snd ?m"] by auto
  with o show ?thesis by (simp add: texts_set)
qed

subsection \<open>The second stage\<close>

lemma stage2_find:
  "stage2 ps item_name threshold =
     Inr (case List.find (\<lambda>s. threshold \<le> ratio (lower s) (lower item_name)) (texts ps) of
            Some s \<Rightarrow> Match s
          | None \<Rightarrow> NoMatch)"
proof (induction ps)
  case Nil
  show ?case by simp
next
  case (Cons p ps)
  show ?case
  proof (cases p)
    case (PStr s)
    with Cons.IH show ?thesis by (simp add: stage2_test_def py_lower_def py_str_def)
  qed (simp_all add: Cons.IH stage2_test_def py_lower_def)
qed

lemma past_items_of_Nil: "past_items_of rows = [] \<longleftrightarrow> rows = []"
  by (simp add: past_items_of_def)

lemma check_cases:
  "check_purchase_history rows item_name threshold =
     (if rows = [] then Inr NoHistory
      else case stage1 (past_items_of rows) item_name threshold of
             Inr (Some orig) \<Rightarrow> Inr (Match orig)
           | _ \<Rightarrow> stage2 (past_items_of rows) item_name threshold)"
  by (simp add: check_purchase_history_def Let_def past_items_of_Nil)

lemma check_total: "\<exists>v. check_purchase_history rows item_name threshold = Inr v"
  by (auto simp: check_cases stage2_find split: sum.splits option.splits)

lemma check_match_sound:
  assumes "check_purchase_history rows item_name threshold = Inr (Match m)"
  shows "PStr m \<in> set (past_items_of rows) \<and> threshold \<le> ratio (lower m) (lower item_name)"
proof (cases "\<exists>orig. stage1 (past_items_of rows) item_name threshold = Inr (Some orig)")
  case True
  then obtain orig where s: "stage1 (past_items_of rows) item_name threshold = Inr (Some orig)" by blast
  with assms have "orig = m" by (auto simp: check_cases split: if_splits)
  with stage1_sound [OF s] show ?thesis by simp
next
  case False
  with assms have "stage2 (past_items_of rows) item_name threshold = Inr (Match m)"
    by (auto simp: check_cases split: if_splits sum.splits option.splits)
  then have "List.find (\<lambda>s. threshold \<le> ratio (lower s) (lower item_name)) (texts (past_items_of rows)) = Some m"
    by (auto simp: stage2_find split: option.splits)
  then show ?thesis by (auto simp: find_Some_iff texts_set [symmetric])
qed

lemma check_match_complete:
  assumes "PStr s \<in> set (past_items_of rows)" and "threshold \<le> ratio (lower s) (lower item_name)"
  shows "\<exists>m. check_purchase_history rows item_name threshold = Inr (Match m)"
proof -
  have ne: "rows \<noteq> []" using assms(1) past_items_of_Nil [of rows] by auto
  have "s \<in> set (texts (past_items_of rows))" using assms(1) by (simp add: texts_set)
  with assms(2) have "List.find (\<lambda>s. threshold \<le> ratio (lower s) (lower item_name)) (texts (past_items_of rows)) \<noteq> None"
    by (auto simp: find_None_iff)
  then have "\<exists>m. stage2 (past_items_of rows) item_name threshold = Inr (Match m)"
    by (auto simp: stage2_find)
  then show ?thesis using ne by (auto simp: check_cases split: sum.splits option.splits)
qed

subsection \<open>Histories of strings\<close>

lemma lower_Nil_iff: "lower s = [] \<longleftrightarrow> s = []"
  by (simp add: lower_def)

lemma past_items_of_PStr: "PStr s \<in> set rows \<Longrightarrow> PStr s \<in> set (past_items_of rows)"
  by (force simp: past_items_of_def truthy_def)

lemma past_items_of_back: "PStr s \<in> set (past_items_of rows) \<Longrightarrow> s \<noteq> [] \<Longrightarrow> PStr s \<in> set rows"
  by (auto simp: past_items_of_def split: if_splits)

lemma past_items_of_all_str: "all_str rows \<Longrightarrow> past_items_of rows = rows"
  unfolding past_items_of_def all_str_def
  by (rule map_idI) (auto simp: truthy_def)

lemma Max_pair_greatest:
  assumes "(r, x) \<in> set ps"
  shows "r < fst (Max (set ps)) \<or> (r = fst (Max (set ps)) \<and> x \<le> snd (Max (set ps)))"
proof -
  have "(r, x) \<le> Max (set ps)" using assms by simp
  then show ?thesis by (auto simp: less_eq_prod_def)
qed

lemma stage1_best:
  assumes str: "all_str ps" and rng: "0 \<le> threshold" "threshold \<le> 1"
    and e: "PStr e \<in> set ps" "threshold \<le> ratio (lower e) (lower item_name)"
  shows "\<exists>orig. stage1 ps item_name threshold = Inr (Some orig)
     \<and> PStr orig \<in> set ps \<and> threshold \<le> ratio (lower orig) (lower item_name)
     \<and> (\<forall>s. PStr s \<in> set ps \<and> threshold \<le> ratio (lower s) (lower item_name) \<longrightarrow>
           ratio (lower s) (lower item_name) < ratio (lower orig) (lower item_name)
           \<or> (ratio (lower s) (lower item_name) = ratio (lower orig) (lower item_name)
               \<and> lower s \<le> lower orig))
     \<and> List.find (\<lambda>s. lower s = lower orig) (texts ps) = Some orig"
proof -
  let ?sc = "scored (lower item_name) threshold (map lower (texts ps))"
  let ?m = "Max (set ?sc)"
  have inq: "(ratio (lower s) (lower item_name), lower s) \<in> set ?sc"
    if "PStr s \<in> set ps" "threshold \<le> ratio (lower s) (lower item_name)" for s
    using that by (auto simp: scored_set texts_set)
  from inq [OF e] have ne: "?sc \<noteq> []" by auto
  from stage1_some [OF str rng ne] obtain orig where
    s1: "stage1 ps item_name threshold = Inr (Some orig)"
    and f: "List.find (\<lambda>s. lower s = snd ?m) (texts ps) = Some orig" by blast
  from f have lo: "snd ?m = lower orig" by (auto simp: find_Some_iff)
  have f': "List.find (\<lambda>s. lower s = lower orig) (texts ps) = Some orig"
    using f unfolding lo .
  have "?m \<in> set ?sc" using ne by (intro Max_in) simp_all
  then have "(fst ?m, snd ?m) \<in> set ?sc" by simp
  then have "fst ?m = ratio (snd ?m) (lower item_name)" by (simp only: scored_set)
  then have fm: "fst ?m = ratio (lower orig) (lower item_name)" unfolding lo .
  have best: "\<forall>s. PStr s \<in> set ps \<and> threshold \<le> ratio (lower s) (lower item_name) \<longrightarrow>
           ratio (lower s) (lower item_name) < ratio (lower orig) (lower item_name)
           \<or> (ratio (lower s) (lower item_name) = ratio (lower orig) (lower item_name)
               \<and> lower s \<le> lower orig)"
  proof (intro allI impI)
    fix s assume "PStr s \<in> set ps \<and> threshold \<le> ratio (lower s) (lower item_name)"
    then have "(ratio (lower s) (lower item_name), lower s) \<in> set ?sc" using inq by blast
    from Max_pair_greatest [OF this]
    show "ratio (lower s) (lower item_name) < ratio (lower orig) (lower item_name)
           \<or> (ratio (lower s) (lower item_name) = ratio (lower orig) (lower item_name)
               \<and> lower s \<le> lower orig)"
      unfolding fm lo .
  qed
  from stage1_sound [OF s1]
  have snd: "PStr orig \<in> set ps" "threshold \<le> ratio (lower orig) (lower item_name)" by simp_all
  show ?thesis
    by (rule exI [of _ orig]) (intro conjI s1 snd best f')
qed

subsection \<open>Only equal sequences have ratio 1\<close>

text \<open>
  The work list is a stack, so the blocks that one window yields are found before the
  rest of the list is touched: the loop over a list is the loop over its windows one
  after the other. \<open>msize a b w\<close> is the number of characters matched inside \<open>w\<close>.
  When a window with the same bounds on both sides is matched completely, the longest
  block lies on its diagonal and the two windows beside it are matched completely too.
\<close>

definition msize :: "string \<Rightarrow> string \<Rightarrow> nat \<times> nat \<times> nat \<times> nat \<Rightarrow> nat" where
  "msize a b w = block_sizes (matching_blocks_loop a b [w] [])"

lemma matching_blocks_loop_prefix:
  "matching_blocks_loop a b queue (xs @ blocks) = xs @ matching_blocks_loop a b queue blocks"
proof (induction a b queue blocks rule: matching_blocks_loop.induct)
  case (1 a b matching_blocks)
  show ?case by simp
next
  case (2 a b alo ahi blo bhi queue matching_blocks)
  obtain i j k where f: "find_longest_match a b (chain_b b) alo ahi blo bhi = (i, j, k)"
    by (metis prod.exhaust)
  show ?case
  proof (cases "k = 0")
    case True
    from "2.IH"(2) [OF f [symmetric] refl] True f show ?thesis by simp
  next
    case False
    from "2.IH"(1) [OF f [symmetric] refl] False f show ?thesis by simp
  qed
qed

lemma matching_blocks_loop_acc:
  "matching_blocks_loop a b queue blocks = blocks @ matching_blocks_loop a b queue []"
  using matching_blocks_loop_prefix [of a b queue blocks "[]"] by simp

lemma matching_blocks_loop_append:
  "matching_blocks_loop a b (q1 @ q2) blocks
     = matching_blocks_loop a b q2 (matching_blocks_loop a b q1 blocks)"
proof (induction a b q1 blocks rule: matching_blocks_loop.induct)
  case (1 a b matching_blocks)
  show ?case by simp
next
  case (2 a b alo ahi blo bhi queue matching_blocks)
  obtain i j k where f: "find_longest_match a b (chain_b b) alo ahi blo bhi = (i, j, k)"
    by (metis prod.exhaust)
  show ?case
  proof (cases "k = 0")
    case True
    from "2.IH"(2) [OF f [symmetric] refl] True f show ?thesis by simp
  next
    case False
    from "2.IH"(1) [OF f [symmetric] refl] False f show ?thesis by simp
  qed
qed

lemma msize_step:
  assumes "find_longest_match a b (chain_b b) alo ahi blo bhi = (i, j, k)"
  shows "msize a b (alo, ahi, blo, bhi) =
     (if k = 0 then 0
      else k + (if i + k < ahi \<and> j + k < bhi then msize a b (i + k, ahi, j + k, bhi) else 0)
             + (if alo < i \<and> blo < j then msize a b (alo, i, blo, j) else 0))"
proof (cases "k = 0")
  case True
  with assms show ?thesis by (simp add: msize_def block_sizes_def)
next
  case False
  let ?R = "if i + k < ahi \<and> j + k < bhi then [(i + k, ahi, j + k, bhi)] else []"
  let ?L = "if alo < i \<and> blo < j then [(alo, i, blo, j)] else []"
  have "matching_blocks_loop a b [(alo, ahi, blo, bhi)] []
      = matching_blocks_loop a b (?R @ ?L) [(i, j, k)]"
    using assms False by simp
  also have "\<dots> = [(i, j, k)] @ matching_blocks_loop a b (?R @ ?L) []"
    by (rule matching_blocks_loop_acc)
  also have "matching_blocks_loop a b (?R @ ?L) []
      = matching_blocks_loop a b ?L (matching_blocks_loop a b ?R [])"
    by (rule matching_blocks_loop_append)
  also have "\<dots> = matching_blocks_loop a b ?R [] @ matching_blocks_loop a b ?L []"
    by (rule matching_blocks_loop_acc)
  finally have "msize a b (alo, ahi, blo, bhi)
      = k + block_sizes (matching_blocks_loop a b ?R []) + block_sizes (matching_blocks_loop a b ?L [])"
    by (simp add: msize_def block_sizes_append) (simp add: block_sizes_def)
  moreover have "block_sizes (matching_blocks_loop a b ?R [])
      = (if i + k < ahi \<and> j + k < bhi then msize a b (i + k, ahi, j + k, bhi) else 0)"
    by (simp add: msize_def block_sizes_def)
  moreover have "block_sizes (matching_blocks_loop a b ?L [])
      = (if alo < i \<and> blo < j then msize a b (alo, i, blo, j) else 0)"
    by (simp add: msize_def block_sizes_def)
  ultimately show ?thesis using False by simp
qed

lemma msize_le_width:
  assumes "window_ok a b (alo, ahi, blo, bhi)"
  shows "msize a b (alo, ahi, blo, bhi) \<le> min (ahi - alo) (bhi - blo)"
proof -
  have "\<forall>w\<in>set [(alo, ahi, blo, bhi)]. window_ok a b w" using assms by simp
  from matching_blocks_loop_sizes [OF this, of "[]"]
  have "msize a b (alo, ahi, blo, bhi) \<le> capacity a b (alo, ahi, blo, bhi)"
    by (simp add: msize_def block_sizes_def)
  also have "\<dots> \<le> min (size (mset (window a alo ahi))) (size (mset (window b blo bhi)))"
    unfolding capacity_def prod.case by (rule size_inter_le_min)
  also have "\<dots> \<le> min (ahi - alo) (bhi - blo)"
    by (simp add: window_def min.coboundedI1 min.coboundedI2)
  finally show ?thesis .
qed


lemma full_window:
  assumes "hi \<le> length a" and "hi \<le> length b" and "lo \<le> hi"
    and "msize a b (lo, hi, lo, hi) = hi - lo"
  shows "\<forall>x. lo \<le> x \<and> x < hi \<longrightarrow> a ! x = b ! x"
  using assms
proof (induction "hi - lo" arbitrary: lo hi rule: less_induct)
  case less
  show ?case
  proof (cases "lo = hi")
    case True
    then show ?thesis by auto
  next
    case False
    with less.prems(3) have lt: "lo < hi" by simp
    obtain i j k where f: "find_longest_match a b (chain_b b) lo hi lo hi = (i, j, k)"
      by (metis prod.exhaust)
    define mR where "mR = (if i + k < hi \<and> j + k < hi then msize a b (i + k, hi, j + k, hi) else 0)"
    define mL where "mL = (if lo < i \<and> lo < j then msize a b (lo, i, lo, j) else 0)"
    have step: "msize a b (lo, hi, lo, hi) = (if k = 0 then 0 else k + mR + mL)"
      unfolding mR_def mL_def by (rule msize_step [OF f])
    have k: "k \<noteq> 0"
    proof
      assume "k = 0"
      with step have "msize a b (lo, hi, lo, hi) = 0" by simp
      with less.prems(4) lt show False by simp
    qed
    have blk: "block_ok a b lo hi lo hi (i, j, k)"
      using find_longest_match_ok [OF chain_b_sound, of a b lo hi lo hi] f by simp
    with k have bd: "lo \<le> i" "i + k \<le> hi" "lo \<le> j" "j + k \<le> hi"
      and eq: "\<forall>x<k. a ! (i + x) = b ! (j + x)"
      by (simp_all add: block_ok_def)
    have mR: "mR \<le> min (hi - (i + k)) (hi - (j + k))"
    proof (cases "i + k < hi \<and> j + k < hi")
      case True
      then have "window_ok a b (i + k, hi, j + k, hi)"
        using less.prems(1,2) by (simp add: window_ok_def)
      from msize_le_width [OF this] True show ?thesis by (simp add: mR_def)
    next
      case False
      then show ?thesis by (auto simp: mR_def)
    qed
    have mL: "mL \<le> min (i - lo) (j - lo)"
    proof (cases "lo < i \<and> lo < j")
      case True
      then have "window_ok a b (lo, i, lo, j)"
        using less.prems(1,2) bd by (simp add: window_ok_def)
      from msize_le_width [OF this] True show ?thesis by (simp add: mL_def)
    next
      case False
      then show ?thesis by (auto simp: mL_def)
    qed
    have total: "k + mR + mL = hi - lo" using step k less.prems(4) by simp
    have ij: "i = j" using total mR mL bd by arith
    have fullL: "mL = i - lo" using total mR mL bd ij by arith
    have fullR: "mR = hi - (i + k)" using total mR mL bd ij by arith
    have left: "a ! x = b ! x" if "lo \<le> x" "x < i" for x
    proof -
      from that have "lo < i" by simp
      then have m: "msize a b (lo, i, lo, i) = i - lo" using fullL ij by (simp add: mL_def)
      have "i - lo < hi - lo" using bd k lt by arith
      from less.hyps [OF this _ _ _ m] less.prems(1,2) bd that show ?thesis by simp
    qed
    have right: "a ! x = b ! x" if "i + k \<le> x" "x < hi" for x
    proof -
      from that have "i + k < hi" by simp
      then have m: "msize a b (i + k, hi, i + k, hi) = hi - (i + k)" using fullR ij by (simp add: mR_def)
      have "hi - (i + k) < hi - lo" using bd k lt by arith
      from less.hyps [OF this _ _ _ m] less.prems(1,2) bd that show ?thesis by simp
    qed
    have mid: "a ! x = b ! x" if "i \<le> x" "x < i + k" for x
    proof -
      from that have "x - i < k" by simp
      with eq have "a ! (i + (x - i)) = b ! (j + (x - i))" by blast
      then show ?thesis using that ij by simp
    qed
    show ?thesis
    proof (intro allI impI)
      fix x assume x: "lo \<le> x \<and> x < hi"
      consider "x < i" | "i \<le> x" "x < i + k" | "i + k \<le> x" by linarith
      then show "a ! x = b ! x"
      proof cases
        case 1
        with x left show ?thesis by simp
      next
        case 2
        with mid show ?thesis by simp
      next
        case 3
        with x right show ?thesis by simp
      qed
    qed
  qed
qed

lemma matches_msize: "matches a b = msize a b (0, length a, 0, length b)"
  by (simp add: matches_loop msize_def)

lemma matches_full:
  assumes "matches a b = length a" and "length a = length b"
  shows "a = b"
proof (rule nth_equalityI)
  show "length a = length b" by (rule assms(2))
next
  fix x assume x: "x < length a"
  have "msize a b (0, length a, 0, length a) = length a - 0"
    using assms by (simp add: matches_msize)
  from full_window [OF _ _ _ this] assms(2) x show "a ! x = b ! x" by simp
qed

lemma ratio_1_equal:
  assumes "ratio a b = 1"
  shows "a = b"
proof (cases "length a + length b = 0")
  case True
  then show ?thesis by simp
next
  case False
  with assms have "(2 :: rat) * of_nat (matches a b) = of_nat (length a + length b)"
    by (simp add: ratio_matches calculate_ratio_def)
  then have "(of_nat (2 * matches a b) :: rat) = of_nat (length a + length b)" by simp
  then have "2 * matches a b = length a + length b" by (simp only: of_nat_eq_iff)
  with matches_le_length [of a b]
  have "matches a b = length a" "length a = length b" by simp_all
  then show ?thesis by (rule matches_full)
qed

lemma ratio_1_iff: "ratio a b = 1 \<longleftrightarrow> a = b"
  using ratio_1_equal ratio_self by blast

subsection \<open>An entry equal to the candidate up to case\<close>

lemma stage1_equal_up_to_case:
  assumes str: "all_str ps" and rng: "0 \<le> threshold" "threshold \<le> 1"
    and e: "PStr e \<in> set ps" "lower e = lower item_name"
  shows "\<exists>orig. stage1 ps item_name threshold = Inr (Some orig)
     \<and> lower orig = lower item_name
     \<and> List.find (\<lambda>s. lower s = lower item_name) (texts ps) = Some orig"
proof -
  have r1: "ratio (lower e) (lower item_name) = 1" unfolding e(2) by (rule ratio_self)
  then have q: "threshold \<le> ratio (lower e) (lower item_name)" using rng(2) by simp
  from stage1_best [OF str rng e(1) q] obtain orig where
    s1: "stage1 ps item_name threshold = Inr (Some orig)"
    and best: "\<forall>s. PStr s \<in> set ps \<and> threshold \<le> ratio (lower s) (lower item_name) \<longrightarrow>
           ratio (lower s) (lower item_name) < ratio (lower orig) (lower item_name)
           \<or> (ratio (lower s) (lower item_name) = ratio (lower orig) (lower item_name)
               \<and> lower s \<le> lower orig)"
    and f: "List.find (\<lambda>s. lower s = lower orig) (texts ps) = Some orig"
    by blast
  from best e(1) q
  have "ratio (lower e) (lower item_name) \<le> ratio (lower orig) (lower item_name)" by force
  with r1 ratio_le_1 [of "lower orig" "lower item_name"]
  have "ratio (lower orig) (lower item_name) = 1" by simp
  then have lo: "lower orig = lower item_name" by (rule ratio_1_equal)
  have f': "List.find (\<lambda>s. lower s = lower item_name) (texts ps) = Some orig"
    using f unfolding lo .
  show ?thesis
    by (rule exI [of _ orig]) (intro conjI s1 lo f')
qed

lemma find_ratio_1:
  "List.find (\<lambda>s. 1 \<le> ratio (lower s) w) xs = List.find (\<lambda>s. lower s = w) xs"
proof -
  have "(1 \<le> ratio (lower s) w) = (lower s = w)" for s
    using ratio_le_1 [of "lower s" w] ratio_1_iff [of "lower s" w] by auto
  then show ?thesis by simp
qed

lemma check_equal_up_to_case:
  assumes e: "PStr e \<in> set (past_items_of rows)" "lower e = lower item_name"
    and t: "threshold = 1 \<or> 0 \<le> threshold \<and> threshold \<le> 1 \<and> all_str (past_items_of rows)"
  shows "\<exists>m. check_purchase_history rows item_name threshold = Inr (Match m)
     \<and> lower m = lower item_name
     \<and> List.find (\<lambda>s. lower s = lower item_name) (texts (past_items_of rows)) = Some m"
proof -
  have ne: "rows \<noteq> []" using e(1) past_items_of_Nil [of rows] by auto
  show ?thesis
  proof (cases "0 \<le> threshold \<and> threshold \<le> 1 \<and> all_str (past_items_of rows)")
    case True
    from stage1_equal_up_to_case [OF _ _ _ e, of threshold] True
    obtain orig where "stage1 (past_items_of rows) item_name threshold = Inr (Some orig)"
      "lower orig = lower item_name"
      "List.find (\<lambda>s. lower s = lower item_name) (texts (past_items_of rows)) = Some orig"
      by blast
    then show ?thesis using ne by (auto simp: check_cases)
  next
    case False
    with t have t1: "threshold = 1" and ns: "\<not> all_str (past_items_of rows)" by auto
    have "e \<in> set (texts (past_items_of rows))" using e(1) by (simp add: texts_set)
    with e(2) obtain m where
      f: "List.find (\<lambda>s. lower s = lower item_name) (texts (past_items_of rows)) = Some m"
      by (cases "List.find (\<lambda>s. lower s = lower item_name) (texts (past_items_of rows))")
         (auto simp: find_None_iff)
    then have lm: "lower m = lower item_name" by (auto simp: find_Some_iff)
    have "stage2 (past_items_of rows) item_name threshold = Inr (Match m)"
      unfolding stage2_find t1 find_ratio_1 f by simp
    moreover have "stage1 (past_items_of rows) item_name threshold = Inl AttributeError"
      by (rule stage1_not_all_str [OF ns])
    ultimately have "check_purchase_history rows item_name threshold = Inr (Match m)"
      using ne by (simp add: check_cases)
    with lm f show ?thesis by blast
  qed
qed

section \<open>The claims\<close>

text \<open>
  C1, as amended. For every history, candidate and threshold the matcher returns a
  verdict and raises nothing. Empty text is compared like any other text: with a positive
  threshold, the text of a reported match is empty exactly when the candidate is empty
  (two empty strings have ratio 1, an empty and a non-empty one have ratio 0).
\<close>

theorem C1_total_and_empty_text:
  "(\<exists>v. check_purchase_history rows item_name threshold = Inr v)
   \<and> (0 < threshold \<longrightarrow> check_purchase_history rows item_name threshold = Inr (Match m)
         \<longrightarrow> (m = [] \<longleftrightarrow> item_name = []))"
proof (intro conjI impI)
  show "\<exists>v. check_purchase_history rows item_name threshold = Inr v"
    by (rule check_total)
next
  assume pos: "0 < threshold"
    and m: "check_purchase_history rows item_name threshold = Inr (Match m)"
  from check_match_sound [OF m]
  have r: "threshold \<le> ratio (lower m) (lower item_name)" by simp
  show "m = [] \<longleftrightarrow> item_name = []"
  proof
    assume "m = []"
    show "item_name = []"
    proof (rule ccontr)
      assume "item_name \<noteq> []"
      then have "lower item_name \<noteq> []" by (simp add: lower_Nil_iff)
      moreover have "lower m = []" using \<open>m = []\<close> by (simp add: lower_Nil_iff)
      ultimately have "ratio (lower m) (lower item_name) = 0" by (simp add: ratio_Nil_left)
      with r pos show False by simp
    qed
  next
    assume "item_name = []"
    show "m = []"
    proof (rule ccontr)
      assume "m \<noteq> []"
      then have "lower m \<noteq> []" by (simp add: lower_Nil_iff)
      moreover have "lower item_name = []" using \<open>item_name = []\<close> by (simp add: lower_Nil_iff)
      ultimately have "ratio (lower m) (lower item_name) = 0" by (simp add: ratio_Nil_right)
      with r pos show False by simp
    qed
  qed
qed

theorem C1_total_and_empty_text_witness:
  "(0 :: rat) < 6 / 10
   \<and> check_purchase_history [PStr [], PStr ''Desk Lamp''] [] (6 / 10) = Inr (Match [])
   \<and> (\<exists>v. check_purchase_history [PStr [], PStr ''Desk Lamp''] [] (6 / 10) = Inr v)
   \<and> (([] :: string) = [] \<longleftrightarrow> ([] :: string) = [])"
proof -
  have e: "check_purchase_history [PStr [], PStr ''Desk Lamp''] [] (6 / 10) = Inr (Match [])"
    by code_simp
  show ?thesis
    using e C1_total_and_empty_text [of "[PStr [], PStr ''Desk Lamp'']" "[]" "6 / 10" "[]"]
    by simp
qed

text \<open>
  C1 as stated fails: an empty candidate against an empty history entry (also one that
  was \<^verbatim>\<open>None\<close>) is reported as a match, and so is a candidate that is one blank against
  the entry " a".
\<close>

theorem C1_counterexample:
  "check_purchase_history [PStr []] [] (6 / 10) = Inr (Match [])
   \<and> check_purchase_history [PNone] [] (6 / 10) = Inr (Match [])
   \<and> check_purchase_history [PStr '' a''] '' '' (6 / 10) = Inr (Match '' a'')"
  by code_simp

text \<open>
  C2, as amended. Let the history, after the normalisation \<^verbatim>\<open>r[0] or ""\<close>, consist of
  strings, and let the threshold lie in [0, 1]. If some entry reaches the threshold then
  stage 1 returns an entry \<open>orig\<close>, and the matcher reports it, such that: \<open>orig\<close>
  reaches the threshold; every entry that reaches it has a smaller ratio, or the same
  ratio and a lowercased text that is not greater (in code-point order) than that of
  \<open>orig\<close>; and \<open>orig\<close> is the first entry of the history with its lowercased text.
  Ties of the ratio are broken by the greatest lowercased text, not by the position in
  the history.
\<close>

theorem C2_stage1_best:
  assumes "all_str (past_items_of rows)" and "0 \<le> threshold" and "threshold \<le> 1"
    and "PStr e \<in> set (past_items_of rows)"
    and "threshold \<le> ratio (lower e) (lower item_name)"
  shows "\<exists>orig. stage1 (past_items_of rows) item_name threshold = Inr (Some orig)
     \<and> check_purchase_history rows item_name threshold = Inr (Match orig)
     \<and> PStr orig \<in> set (past_items_of rows)
     \<and> threshold \<le> ratio (lower orig) (lower item_name)
     \<and> (\<forall>s. PStr s \<in> set (past_items_of rows)
              \<and> threshold \<le> ratio (lower s) (lower item_name) \<longrightarrow>
           ratio (lower s) (lower item_name) < ratio (lower orig) (lower item_name)
           \<or> (ratio (lower s) (lower item_name) = ratio (lower orig) (lower item_name)
               \<and> lower s \<le> lower orig))
     \<and> List.find (\<lambda>s. lower s = lower orig) (texts (past_items_of rows)) = Some orig"
proof -
  have ne: "rows \<noteq> []" using assms(4) past_items_of_Nil [of rows] by auto
  from stage1_best [OF assms] obtain orig where
    o: "stage1 (past_items_of rows) item_name threshold = Inr (Some orig)"
      "PStr orig \<in> set (past_items_of rows)"
      "threshold \<le> ratio (lower orig) (lower item_name)"
      "\<forall>s. PStr s \<in> set (past_items_of rows)
              \<and> threshold \<le> ratio (lower s) (lower item_name) \<longrightarrow>
           ratio (lower s) (lower item_name) < ratio (lower orig) (lower item_name)
           \<or> (ratio (lower s) (lower item_name) = ratio (lower orig) (lower item_name)
               \<and> lower s \<le> lower orig)"
      "List.find (\<lambda>s. lower s = lower orig) (texts (past_items_of rows)) = Some orig"
    by blast
  have c: "check_purchase_history rows item_name threshold = Inr (Match orig)"
    using ne o(1) by (simp add: check_cases)
  show ?thesis
    by (rule exI [of _ orig]) (intro conjI o c)
qed

theorem C2_stage1_best_witness:
  "all_str (past_items_of [PStr ''ab'', PNone, PStr ''ac''])
   \<and> (0 :: rat) \<le> 6 / 10 \<and> (6 / 10 :: rat) \<le> 1
   \<and> PStr ''ab'' \<in> set (past_items_of [PStr ''ab'', PNone, PStr ''ac''])
   \<and> 6 / 10 \<le> ratio (lower ''ab'') (lower ''a'')
   \<and> (\<exists>orig. check_purchase_history [PStr ''ab'', PNone, PStr ''ac''] ''a'' (6 / 10)
                 = Inr (Match orig)
         \<and> (ratio (lower ''ab'') (lower ''a'') < ratio (lower orig) (lower ''a'')
              \<or> ratio (lower ''ab'') (lower ''a'') = ratio (lower orig) (lower ''a'')
                 \<and> lower ''ab'' \<le> lower orig))"
proof -
  have p: "past_items_of [PStr ''ab'', PNone, PStr ''ac''] = [PStr ''ab'', PStr [], PStr ''ac'']"
    by code_simp
  have h1: "all_str (past_items_of [PStr ''ab'', PNone, PStr ''ac''])"
    unfolding p by (simp add: all_str_def)
  have h2: "(0 :: rat) \<le> 6 / 10" and h3: "(6 / 10 :: rat) \<le> 1" by simp_all
  have h4: "PStr ''ab'' \<in> set (past_items_of [PStr ''ab'', PNone, PStr ''ac''])"
    unfolding p by simp
  have h5: "6 / 10 \<le> ratio (lower ''ab'') (lower ''a'')" by code_simp
  from C2_stage1_best [OF h1 h2 h3 h4 h5] h4 h5
  have c: "\<exists>orig. check_purchase_history [PStr ''ab'', PNone, PStr ''ac''] ''a'' (6 / 10)
                 = Inr (Match orig)
         \<and> (ratio (lower ''ab'') (lower ''a'') < ratio (lower orig) (lower ''a'')
              \<or> ratio (lower ''ab'') (lower ''a'') = ratio (lower orig) (lower ''a'')
                 \<and> lower ''ab'' \<le> lower orig)"
    by blast
  show ?thesis by (intro conjI h1 h2 h3 h4 h5 c)
qed

text \<open>
  C2 as stated fails: "ab" and "ac" both have ratio 2/3 to the candidate "a", "ab" comes
  first in the history, and the matcher reports "ac".
\<close>

theorem C2_counterexample:
  "check_purchase_history [PStr ''ab'', PStr ''ac''] ''a'' (6 / 10) = Inr (Match ''ac'')
   \<and> ratio (lower ''ab'') (lower ''a'') = 2 / 3
   \<and> ratio (lower ''ac'') (lower ''a'') = 2 / 3"
  by code_simp

text \<open>
  C3. For a non-empty history: when stage 1 returns an entry, the matcher reports that
  entry; otherwise (stage 1 found nothing, or raised) the matcher reports the first entry
  of the history, in its order, whose ratio to the candidate (both lowercased) reaches the
  threshold, and \<open>NoMatch\<close> when there is none.
\<close>

theorem C3_stage1_first_then_scan:
  assumes "rows \<noteq> []"
  shows "(stage1 (past_items_of rows) item_name threshold = Inr (Some orig)
            \<longrightarrow> check_purchase_history rows item_name threshold = Inr (Match orig))
       \<and> ((\<forall>orig. stage1 (past_items_of rows) item_name threshold \<noteq> Inr (Some orig))
            \<longrightarrow> check_purchase_history rows item_name threshold =
                 Inr (case List.find (\<lambda>s. threshold \<le> ratio (lower s) (lower item_name))
                             (texts (past_items_of rows)) of
                        Some s \<Rightarrow> Match s
                      | None \<Rightarrow> NoMatch))"
  using assms by (auto simp: check_cases stage2_find split: sum.splits option.splits)

text \<open>
  At the history "ab", "ac" with the candidate "a" stage 1 returns "ac", which the
  matcher reports although the scan of stage 2 alone stops at the earlier "ab"; with the
  number 7 in the history stage 1 raises and the scan decides.
\<close>

theorem C3_stage1_first_then_scan_witness:
  "[PStr ''ab'', PStr ''ac''] \<noteq> []
   \<and> stage1 (past_items_of [PStr ''ab'', PStr ''ac'']) ''a'' (6 / 10) = Inr (Some ''ac'')
   \<and> stage2 (past_items_of [PStr ''ab'', PStr ''ac'']) ''a'' (6 / 10) = Inr (Match ''ab'')
   \<and> check_purchase_history [PStr ''ab'', PStr ''ac''] ''a'' (6 / 10) = Inr (Match ''ac'')
   \<and> (\<forall>orig. stage1 (past_items_of [PInt 7, PStr ''ab'', PStr ''ac'']) ''a'' (6 / 10) \<noteq> Inr (Some orig))
   \<and> check_purchase_history [PInt 7, PStr ''ab'', PStr ''ac''] ''a'' (6 / 10) = Inr (Match ''ab'')"
proof -
  have n1: "[PStr ''ab'', PStr ''ac''] \<noteq> []" and n2: "[PInt 7, PStr ''ab'', PStr ''ac''] \<noteq> []"
    by simp_all
  have s1: "stage1 (past_items_of [PStr ''ab'', PStr ''ac'']) ''a'' (6 / 10) = Inr (Some ''ac'')"
    by code_simp
  have s2: "stage2 (past_items_of [PStr ''ab'', PStr ''ac'']) ''a'' (6 / 10) = Inr (Match ''ab'')"
    by code_simp
  have r: "stage1 (past_items_of [PInt 7, PStr ''ab'', PStr ''ac'']) ''a'' (6 / 10) = Inl AttributeError"
    by code_simp
  then have s3: "\<forall>orig. stage1 (past_items_of [PInt 7, PStr ''ab'', PStr ''ac'']) ''a'' (6 / 10) \<noteq> Inr (Some orig)"
    by simp
  have f: "(case List.find (\<lambda>s. 6 / 10 \<le> ratio (lower s) (lower ''a''))
                  (texts (past_items_of [PInt 7, PStr ''ab'', PStr ''ac''])) of
              Some s \<Rightarrow> Match s | None \<Rightarrow> NoMatch) = Match ''ab''"
    by code_simp
  from C3_stage1_first_then_scan [OF n1, of "''a''" "6 / 10" "''ac''"] s1
  have c1: "check_purchase_history [PStr ''ab'', PStr ''ac''] ''a'' (6 / 10) = Inr (Match ''ac'')"
    by blast
  from C3_stage1_first_then_scan [OF n2, of "''a''" "6 / 10"] s3
  have c2: "check_purchase_history [PInt 7, PStr ''ab'', PStr ''ac''] ''a'' (6 / 10) = Inr (Match ''ab'')"
    unfolding f by blast
  show ?thesis by (intro conjI n1 s1 s2 c1 s3 c2)
qed

text \<open>
  C4. For every candidate and every threshold, an empty history gives the verdict
  \<open>NoHistory\<close>.
\<close>

theorem C4_empty_history:
  "check_purchase_history [] item_name threshold = Inr NoHistory"
  by (simp add: check_purchase_history_def past_items_of_def)

text \<open>
  C5, as amended. If the history holds an entry equal to the candidate up to case and the
  threshold is at most 1, the ratio of the pair is 1 and the matcher reports a match,
  with a text that is an entry of the history as it stands there. If moreover the
  threshold is 1, or it is at least 0 and the history after the normalisation
  \<^verbatim>\<open>r[0] or ""\<close> consists of strings, the reported entry is equal to the candidate up to
  case: it is the first such entry of the history, in its original casing. So for the
  history "Nike Shoes", the candidate "nike shoes" and the threshold 0.9 the matcher
  reports "Nike Shoes".
\<close>

theorem C5_equal_up_to_case:
  assumes "PStr e \<in> set rows" and "lower e = lower item_name" and "threshold \<le> 1"
  shows "ratio (lower e) (lower item_name) = 1
       \<and> (\<exists>m. check_purchase_history rows item_name threshold = Inr (Match m)
              \<and> PStr m \<in> set (past_items_of rows))
       \<and> (threshold = 1 \<or> 0 \<le> threshold \<and> all_str (past_items_of rows) \<longrightarrow>
             (\<exists>m. check_purchase_history rows item_name threshold = Inr (Match m)
                \<and> lower m = lower item_name
                \<and> List.find (\<lambda>s. lower s = lower item_name) (texts (past_items_of rows))
                    = Some m))
       \<and> check_purchase_history [PStr ''Nike Shoes''] ''nike shoes'' (9 / 10)
            = Inr (Match ''Nike Shoes'')"
proof (intro conjI impI)
  show r: "ratio (lower e) (lower item_name) = 1"
    unfolding assms(2) by (rule ratio_self)
  have pe: "PStr e \<in> set (past_items_of rows)" by (rule past_items_of_PStr [OF assms(1)])
  from check_match_complete [OF pe, of threshold item_name] r assms(3)
  obtain m where m: "check_purchase_history rows item_name threshold = Inr (Match m)" by auto
  from check_match_sound [OF m] m
  show "\<exists>m. check_purchase_history rows item_name threshold = Inr (Match m)
          \<and> PStr m \<in> set (past_items_of rows)" by blast
  show "check_purchase_history [PStr ''Nike Shoes''] ''nike shoes'' (9 / 10)
          = Inr (Match ''Nike Shoes'')"
    by code_simp
  assume "threshold = 1 \<or> 0 \<le> threshold \<and> all_str (past_items_of rows)"
  with assms(3)
  have "threshold = 1 \<or> 0 \<le> threshold \<and> threshold \<le> 1 \<and> all_str (past_items_of rows)"
    by blast
  from check_equal_up_to_case [OF pe assms(2) this]
  show "\<exists>m. check_purchase_history rows item_name threshold = Inr (Match m)
          \<and> lower m = lower item_name
          \<and> List.find (\<lambda>s. lower s = lower item_name) (texts (past_items_of rows)) = Some m" .
qed

theorem C5_equal_up_to_case_witness:
  "PStr ''NIKE SHOES'' \<in> set [PStr ''nike shoe'', PStr ''NIKE SHOES'', PStr ''Nike Shoes'']
   \<and> lower ''NIKE SHOES'' = lower ''nike shoes''
   \<and> (6 / 10 :: rat) \<le> 1 \<and> (0 :: rat) \<le> 6 / 10
   \<and> all_str (past_items_of [PStr ''nike shoe'', PStr ''NIKE SHOES'', PStr ''Nike Shoes''])
   \<and> ratio (lower ''NIKE SHOES'') (lower ''nike shoes'') = 1
   \<and> check_purchase_history [PStr ''nike shoe'', PStr ''NIKE SHOES'', PStr ''Nike Shoes'']
         ''nike shoes'' (6 / 10) = Inr (Match ''NIKE SHOES'')"
proof -
  have h1: "PStr ''NIKE SHOES'' \<in> set [PStr ''nike shoe'', PStr ''NIKE SHOES'', PStr ''Nike Shoes'']"
    by simp
  have h2: "lower ''NIKE SHOES'' = lower ''nike shoes''" by code_simp
  have h3: "(6 / 10 :: rat) \<le> 1" and h4: "(0 :: rat) \<le> 6 / 10" by simp_all
  have p: "past_items_of [PStr ''nike shoe'', PStr ''NIKE SHOES'', PStr ''Nike Shoes'']
      = [PStr ''nike shoe'', PStr ''NIKE SHOES'', PStr ''Nike Shoes'']" by code_simp
  have h5: "all_str (past_items_of [PStr ''nike shoe'', PStr ''NIKE SHOES'', PStr ''Nike Shoes''])"
    unfolding p by (simp add: all_str_def)
  have f: "List.find (\<lambda>s. lower s = lower ''nike shoes'')
             (texts (past_items_of [PStr ''nike shoe'', PStr ''NIKE SHOES'', PStr ''Nike Shoes'']))
           = Some ''NIKE SHOES''" by code_simp
  from C5_equal_up_to_case [OF h1 h2 h3] h4 h5
  have c1: "ratio (lower ''NIKE SHOES'') (lower ''nike shoes'') = 1"
    and "\<exists>m. check_purchase_history [PStr ''nike shoe'', PStr ''NIKE SHOES'', PStr ''Nike Shoes'']
                ''nike shoes'' (6 / 10) = Inr (Match m)
           \<and> List.find (\<lambda>s. lower s = lower ''nike shoes'')
                (texts (past_items_of [PStr ''nike shoe'', PStr ''NIKE SHOES'', PStr ''Nike Shoes'']))
               = Some m"
    by blast+
  then have c2: "check_purchase_history [PStr ''nike shoe'', PStr ''NIKE SHOES'', PStr ''Nike Shoes'']
         ''nike shoes'' (6 / 10) = Inr (Match ''NIKE SHOES'')"
    unfolding f by auto
  show ?thesis by (intro conjI h1 h2 h3 h4 h5 c1 c2)
qed

text \<open>
  C5 as stated fails below 0: stage 1 raises on the threshold and the scan reports the
  first entry of the history, "Desk Lamp", not the entry "NIKE SHOES" that is equal to the
  candidate up to case.
\<close>

theorem C5_counterexample:
  "PStr ''NIKE SHOES'' \<in> set [PStr ''Desk Lamp'', PStr ''NIKE SHOES'']
   \<and> lower ''NIKE SHOES'' = lower ''nike shoes''
   \<and> (- 1 :: rat) \<le> 1
   \<and> check_purchase_history [PStr ''Desk Lamp'', PStr ''NIKE SHOES''] ''nike shoes'' (- 1)
        = Inr (Match ''Desk Lamp'')
   \<and> lower ''Desk Lamp'' \<noteq> lower ''nike shoes''"
  by code_simp

text \<open>
  C6. Threshold monotonicity: if the matcher reports a match at the threshold \<open>t1\<close> and
  \<open>t2 < t1\<close>, it reports a match at \<open>t2\<close> (not always of the same entry).
\<close>

theorem C6_threshold_monotone:
  assumes "check_purchase_history rows item_name t1 = Inr (Match m1)" and "t2 < t1"
  shows "\<exists>m2. check_purchase_history rows item_name t2 = Inr (Match m2)"
proof -
  from check_match_sound [OF assms(1)]
  have "PStr m1 \<in> set (past_items_of rows)" "t1 \<le> ratio (lower m1) (lower item_name)"
    by simp_all
  with assms(2) show ?thesis by (intro check_match_complete [of m1]) simp_all
qed

theorem C6_threshold_monotone_witness:
  "check_purchase_history [PStr ''Red Shoes'', PStr ''Red Shoe''] ''Red Shoes!'' (9 / 10)
     = Inr (Match ''Red Shoes'')
   \<and> (1 / 2 :: rat) < 9 / 10
   \<and> (\<exists>m2. check_purchase_history [PStr ''Red Shoes'', PStr ''Red Shoe''] ''Red Shoes!'' (1 / 2)
              = Inr (Match m2))"
proof -
  have h1: "check_purchase_history [PStr ''Red Shoes'', PStr ''Red Shoe''] ''Red Shoes!'' (9 / 10)
     = Inr (Match ''Red Shoes'')" by code_simp
  have h2: "(1 / 2 :: rat) < 9 / 10" by simp
  show ?thesis by (intro conjI h1 h2 C6_threshold_monotone [OF h1 h2])
qed

text \<open>
  C7. A ratio exactly equal to the threshold counts as a match in both stages: if the
  ratio of an entry to the candidate is the threshold, then on the history that holds
  just this entry stage 1 returns it, the scan of stage 2 reports it, and so does the
  matcher.
\<close>

theorem C7_equal_counts:
  assumes "ratio (lower e) (lower item_name) = threshold"
  shows "stage1 [PStr e] item_name threshold = Inr (Some e)
       \<and> stage2 [PStr e] item_name threshold = Inr (Match e)
       \<and> check_purchase_history [PStr e] item_name threshold = Inr (Match e)"
proof -
  have str: "all_str [PStr e]" by (simp add: all_str_def)
  have rng: "0 \<le> threshold" "threshold \<le> 1"
    using ratio_nonneg [of "lower e" "lower item_name"] ratio_le_1 [of "lower e" "lower item_name"]
    unfolding assms by simp_all
  have sc: "scored (lower item_name) threshold [lower e] = [(threshold, lower e)]"
    using assms by (simp add: scored_def)
  have s1: "stage1 [PStr e] item_name threshold = Inr (Some e)"
    using rng by (simp add: stage1_all_str [OF str] sc)
  have s2: "stage2 [PStr e] item_name threshold = Inr (Match e)"
    using assms by (simp add: stage2_find)
  have p: "past_items_of [PStr e] = [PStr e]" by (rule past_items_of_all_str [OF str])
  have "check_purchase_history [PStr e] item_name threshold = Inr (Match e)"
    using s1 by (simp add: check_cases p)
  with s1 s2 show ?thesis by simp
qed

theorem C7_equal_counts_witness:
  "ratio (lower ''ab'') (lower ''AC'') = 1 / 2
   \<and> stage1 [PStr ''ab''] ''AC'' (1 / 2) = Inr (Some ''ab'')
   \<and> stage2 [PStr ''ab''] ''AC'' (1 / 2) = Inr (Match ''ab'')
   \<and> check_purchase_history [PStr ''ab''] ''AC'' (1 / 2) = Inr (Match ''ab'')"
proof -
  have h: "ratio (lower ''ab'') (lower ''AC'') = 1 / 2" by code_simp
  from C7_equal_counts [OF h] h show ?thesis by simp
qed

text \<open>
  C8. With the history "iPhone 13 Case", "Desk Lamp", the candidate "iPhone 13 Cover" and
  the threshold 0.6 the verdict is a match with "iPhone 13 Case": its ratio is 24/29,
  that of "Desk Lamp" is 1/6.
\<close>

theorem C8_scenario_4:
  "check_purchase_history [PStr ''iPhone 13 Case'', PStr ''Desk Lamp''] ''iPhone 13 Cover'' (6 / 10)
     = Inr (Match ''iPhone 13 Case'')
   \<and> ratio (lower ''iPhone 13 Case'') (lower ''iPhone 13 Cover'') = 24 / 29
   \<and> ratio (lower ''Desk Lamp'') (lower ''iPhone 13 Cover'') = 1 / 6"
  by code_simp

text \<open>
  C9. The text of a reported match is an element of the history after the
  normalisation \<^verbatim>\<open>r[0] or ""\<close>; unless it is empty it is an element of the history as
  supplied.
\<close>

theorem C9_match_is_history_entry:
  assumes "check_purchase_history rows item_name threshold = Inr (Match m)"
  shows "PStr m \<in> set (past_items_of rows) \<and> (m \<noteq> [] \<longrightarrow> PStr m \<in> set rows)"
  using check_match_sound [OF assms] past_items_of_back [of m rows] by blast

theorem C9_match_is_history_entry_witness:
  "check_purchase_history [PNone, PStr ''Gaming Laptop''] ''gaming laptops'' (6 / 10)
     = Inr (Match ''Gaming Laptop'')
   \<and> PStr ''Gaming Laptop'' \<in> set (past_items_of [PNone, PStr ''Gaming Laptop''])
   \<and> PStr ''Gaming Laptop'' \<in> set [PNone, PStr ''Gaming Laptop'']"
proof -
  have h: "check_purchase_history [PNone, PStr ''Gaming Laptop''] ''gaming laptops'' (6 / 10)
     = Inr (Match ''Gaming Laptop'')" by code_simp
  from C9_match_is_history_entry [OF h] h show ?thesis by simp
qed

text \<open>
  C10. For a non-empty history a threshold outside [0, 1] raises nothing: stage 1 raises
  (the library rejects the cutoff, or an entry is no string) and this is swallowed; the
  scan of stage 2 then gives \<open>NoMatch\<close> for a threshold above 1 and, for a threshold
  below 0, a match with the first entry of the history when that is a string.
\<close>

theorem C10_threshold_out_of_range:
  assumes "rows \<noteq> []"
  shows "(1 < threshold \<longrightarrow>
            (\<exists>err. stage1 (past_items_of rows) item_name threshold = Inl err)
            \<and> check_purchase_history rows item_name threshold = Inr NoMatch)
       \<and> (threshold < 0 \<longrightarrow>
            (\<exists>err. stage1 (past_items_of rows) item_name threshold = Inl err)
            \<and> (\<forall>p rest. past_items_of rows = PStr p # rest
                  \<longrightarrow> check_purchase_history rows item_name threshold = Inr (Match p)))"
proof (intro conjI impI allI)
  assume t: "1 < threshold"
  then show e: "\<exists>err. stage1 (past_items_of rows) item_name threshold = Inl err"
    by (intro stage1_raises) simp
  have "\<not> threshold \<le> ratio (lower s) (lower item_name)" for s
    using ratio_le_1 [of "lower s" "lower item_name"] t by simp
  then have "List.find (\<lambda>s. threshold \<le> ratio (lower s) (lower item_name)) (texts (past_items_of rows)) = None"
    by (simp add: find_None_iff)
  then have "stage2 (past_items_of rows) item_name threshold = Inr NoMatch"
    by (simp add: stage2_find)
  with e assms show "check_purchase_history rows item_name threshold = Inr NoMatch"
    by (auto simp: check_cases)
next
  assume t: "threshold < 0"
  then show "\<exists>err. stage1 (past_items_of rows) item_name threshold = Inl err"
    by (intro stage1_raises) simp
next
  fix p rest
  assume t: "threshold < 0" and p: "past_items_of rows = PStr p # rest"
  have e: "\<exists>err. stage1 (past_items_of rows) item_name threshold = Inl err"
    using t by (intro stage1_raises) simp
  have "threshold \<le> ratio (lower p) (lower item_name)"
    using ratio_nonneg [of "lower p" "lower item_name"] t by simp
  then have "stage2 (past_items_of rows) item_name threshold = Inr (Match p)"
    by (simp add: stage2_find p)
  with e assms show "check_purchase_history rows item_name threshold = Inr (Match p)"
    by (auto simp: check_cases)
qed

theorem C10_threshold_out_of_range_witness:
  "[PStr ''Desk Lamp'', PStr ''Headphones''] \<noteq> []
   \<and> (1 :: rat) < 3 / 2 \<and> (- 1 / 2 :: rat) < 0
   \<and> check_purchase_history [PStr ''Desk Lamp'', PStr ''Headphones''] ''headphones'' (3 / 2)
        = Inr NoMatch
   \<and> past_items_of [PStr ''Desk Lamp'', PStr ''Headphones''] = PStr ''Desk Lamp'' # [PStr ''Headphones'']
   \<and> check_purchase_history [PStr ''Desk Lamp'', PStr ''Headphones''] ''headphones'' (- 1 / 2)
        = Inr (Match ''Desk Lamp'')"
proof -
  have n: "[PStr ''Desk Lamp'', PStr ''Headphones''] \<noteq> []" by simp
  have a: "(1 :: rat) < 3 / 2" and b: "(- 1 / 2 :: rat) < 0" by simp_all
  have p: "past_items_of [PStr ''Desk Lamp'', PStr ''Headphones''] = PStr ''Desk Lamp'' # [PStr ''Headphones'']"
    by code_simp
  from C10_threshold_out_of_range [OF n, of "3 / 2" "''headphones''"] a
  have c1: "check_purchase_history [PStr ''Desk Lamp'', PStr ''Headphones''] ''headphones'' (3 / 2)
        = Inr NoMatch" by blast
  from C10_threshold_out_of_range [OF n, of "- 1 / 2" "''headphones''"] b p
  have c2: "check_purchase_history [PStr ''Desk Lamp'', PStr ''Headphones''] ''headphones'' (- 1 / 2)
        = Inr (Match ''Desk Lamp'')" by blast
  show ?thesis by (intro conjI n a b c1 p c2)
qed

end
